theory Spec2Isabelle
  imports Main "HOL-Library.Word" "HOL-Library.Multiset"
begin

unbundle bit_operations_syntax

section \<open>Machine types\<close>

text \<open>
  The program is built for a 64-bit target: \<open>size_t\<close> and \<open>int64_t\<close> are 64 bits wide and
  \<open>int\<close> is 32 bits wide. A word carries no sign; \<open>sint\<close> reads it as two's complement and
  \<open>unat\<close> as an unsigned number. Addition on \<open>int64_t\<close> is the processor's addition, which
  wraps around (C++ itself leaves signed overflow undefined).
\<close>

type_synonym size_t = "64 word"
type_synonym int64_t = "64 word"
type_synonym cint = "32 word"

section \<open>The unlocked table: class Database\<close>

text \<open>\<open>std::array::at\<close> throws \<open>std::out_of_range\<close>; it is the only exception of the program.\<close>

datatype error = OutOfBounds

definition DATABASE_SIZE :: nat where
  "DATABASE_SIZE = 10"

record Database =
  data :: "int64_t list"

text \<open>
  The member \<open>data_\<close> is the field \<open>data\<close> here, and likewise for the mutex members below
  (a name cannot end in an underscore).
  A \<open>std::array<int64_t, DATABASE_SIZE>\<close> always holds \<open>DATABASE_SIZE\<close> elements; a list does
  so only when it is well formed.
\<close>

definition wf_Database :: "'a Database_scheme \<Rightarrow> bool" where
  "wf_Database db = (length (data db) = DATABASE_SIZE)"

text \<open>\<open>Database()\<close>: \<open>std::fill(data_.begin(), data_.end(), 0)\<close>.\<close>

definition Database_init :: Database where
  "Database_init = \<lparr>data = replicate DATABASE_SIZE 0\<rparr>"

text \<open>\<open>std::array::at(n)\<close>: range-checked element access.\<close>

definition at :: "'a list \<Rightarrow> size_t \<Rightarrow> error + 'a" where
  "at xs n = (if unat n < length xs then Inr (xs ! unat n) else Inl OutOfBounds)"

text \<open>
  The member functions take the object and return it next to their result, so that what
  a call leaves behind is part of the model. The calls to \<open>sleep_for\<close> only pass time and
  have no counterpart here.

  \<open>int readValue(size_t index) const\<close> returns \<open>data_.at(index)\<close>, an \<open>int64_t\<close>, through the
  return type \<open>int\<close>: the conversion keeps the low 32 bits.
\<close>

definition readValue :: "size_t \<Rightarrow> 'a Database_scheme \<Rightarrow> (error + cint) \<times> 'a Database_scheme" where
  "readValue index db =
     (case at (data db) index of
        Inl e \<Rightarrow> (Inl e, db)
      | Inr v \<Rightarrow> (Inr (ucast v), db))"

text \<open>\<open>void updateValue(size_t index, int64_t value)\<close>: \<open>data_.at(index) += value\<close>.\<close>

definition updateValue ::
  "size_t \<Rightarrow> int64_t \<Rightarrow> 'a Database_scheme \<Rightarrow> (error + unit) \<times> 'a Database_scheme" where
  "updateValue index val db =
     (case at (data db) index of
        Inl e \<Rightarrow> (Inl e, db)
      | Inr v \<Rightarrow> (Inr (), db\<lparr>data := (data db)[unat index := v + val]\<rparr>))"

text \<open>\<open>bool isAllZero()\<close>: \<open>std::all_of\<close> over the cells.\<close>

definition isAllZero :: "'a Database_scheme \<Rightarrow> bool \<times> 'a Database_scheme" where
  "isAllZero db = (list_all (\<lambda>x. x = 0) (data db), db)"

section \<open>The three synchronized tables\<close>

text \<open>
  Each derived class adds its lock to the table and wraps the two inherited operations in a
  scoped acquisition. Threads are numbered; a lock records which thread owns it.
\<close>

type_synonym tid = nat

subsection \<open>The locks of the standard library\<close>

text \<open>
  A \<open>std::mutex\<close> is free or owned by one thread. \<open>lock\<close> by thread \<open>t\<close> gives no result
  (\<open>None\<close>) while the mutex is owned: the thread has to wait.
\<close>

definition mutex_lock :: "tid \<Rightarrow> tid option \<Rightarrow> tid option option" where
  "mutex_lock t m = (case m of None \<Rightarrow> Some (Some t) | Some u \<Rightarrow> None)"

definition mutex_unlock :: "tid option \<Rightarrow> tid option" where
  "mutex_unlock m = None"

text \<open>
  A \<open>std::shared_mutex\<close> is owned by one writer or shared by a set of readers.
  \<open>lock\<close> (taken by \<open>std::unique_lock\<close>) waits for the writer and for every reader;
  \<open>lock_shared\<close> (taken by \<open>std::shared_lock\<close>) waits for the writer only.
\<close>

record shared_mutex_state =
  writer :: "tid option"
  readers :: "tid set"

definition shared_mutex_lock :: "tid \<Rightarrow> shared_mutex_state \<Rightarrow> shared_mutex_state option" where
  "shared_mutex_lock t sm =
     (if writer sm = None \<and> readers sm = {} then Some (sm\<lparr>writer := Some t\<rparr>) else None)"

definition shared_mutex_unlock :: "shared_mutex_state \<Rightarrow> shared_mutex_state" where
  "shared_mutex_unlock sm = sm\<lparr>writer := None\<rparr>"

definition shared_mutex_lock_shared ::
  "tid \<Rightarrow> shared_mutex_state \<Rightarrow> shared_mutex_state option" where
  "shared_mutex_lock_shared t sm =
     (if writer sm = None then Some (sm\<lparr>readers := insert t (readers sm)\<rparr>) else None)"

definition shared_mutex_unlock_shared :: "tid \<Rightarrow> shared_mutex_state \<Rightarrow> shared_mutex_state" where
  "shared_mutex_unlock_shared t sm = sm\<lparr>readers := readers sm - {t}\<rparr>"

subsection \<open>The classes and their constructors\<close>

record SingleMutexDatabase = Database +
  mutex :: "tid option"

definition SingleMutexDatabase_init :: SingleMutexDatabase where
  "SingleMutexDatabase_init = \<lparr>data = replicate DATABASE_SIZE 0, mutex = None\<rparr>"

record SharedMutexDatabase = Database +
  shared_mutex :: shared_mutex_state

definition SharedMutexDatabase_init :: SharedMutexDatabase where
  "SharedMutexDatabase_init =
     \<lparr>data = replicate DATABASE_SIZE 0, shared_mutex = \<lparr>writer = None, readers = {}\<rparr>\<rparr>"

text \<open>\<open>std::array<std::mutex, DATABASE_SIZE / 2> mutexes_\<close>.\<close>

record SplitMutexDatabase = Database +
  mutexes :: "tid option list"

definition wf_SplitMutexDatabase :: "SplitMutexDatabase \<Rightarrow> bool" where
  "wf_SplitMutexDatabase db =
     (length (data db) = DATABASE_SIZE \<and> length (mutexes db) = DATABASE_SIZE div 2)"

definition SplitMutexDatabase_init :: SplitMutexDatabase where
  "SplitMutexDatabase_init =
     \<lparr>data = replicate DATABASE_SIZE 0, mutexes = replicate (DATABASE_SIZE div 2) None\<rparr>"

section \<open>The workload driver\<close>

subsection \<open>The standard library's random engine and shuffle\<close>

text \<open>
  \<open>std::mt19937\<close> is the 32-bit Mersenne Twister with the parameters the C++ standard
  fixes: 624 state words, seeded by the recurrence with multiplier 1812433253, regenerated
  with offset 397 and matrix \<open>0x9908b0df\<close>, and tempered on output.
\<close>

record mt19937 =
  mt_x :: "32 word list"
  mt_p :: nat

fun mt_seed_loop :: "nat \<Rightarrow> nat \<Rightarrow> 32 word \<Rightarrow> 32 word list" where
  "mt_seed_loop 0 i prev = []"
| "mt_seed_loop (Suc n) i prev =
     (let x = 1812433253 * (prev XOR drop_bit 30 prev) + of_nat i
      in x # mt_seed_loop n (Suc i) x)"

text \<open>\<open>std::mt19937 engine(seed)\<close>: the \<open>int\<close> becomes the first state word.\<close>

definition mt19937_seed :: "cint \<Rightarrow> mt19937" where
  "mt19937_seed s = \<lparr>mt_x = s # mt_seed_loop 623 1 s, mt_p = 624\<rparr>"

definition mt_twist :: "32 word \<Rightarrow> 32 word \<Rightarrow> 32 word \<Rightarrow> 32 word" where
  "mt_twist xk xk1 xm =
     (let y = (xk AND 0x80000000) OR (xk1 AND 0x7fffffff)
      in xm XOR drop_bit 1 y XOR (if bit y 0 then 0x9908b0df else 0))"

fun mt_gen_rand :: "nat \<Rightarrow> nat \<Rightarrow> 32 word list \<Rightarrow> 32 word list" where
  "mt_gen_rand 0 k x = x"
| "mt_gen_rand (Suc n) k x =
     mt_gen_rand n (Suc k)
       (x[k := mt_twist (x ! k) (x ! ((k + 1) mod 624)) (x ! ((k + 397) mod 624))])"

text \<open>\<open>engine()\<close>: the next 32-bit output and the advanced engine.\<close>

definition mt_next :: "mt19937 \<Rightarrow> 32 word \<times> mt19937" where
  "mt_next g =
     (let g1 = (if 624 \<le> mt_p g then \<lparr>mt_x = mt_gen_rand 624 0 (mt_x g), mt_p = 0\<rparr> else g);
          z = mt_x g1 ! mt_p g1;
          z = z XOR (drop_bit 11 z AND 0xffffffff);
          z = z XOR (push_bit 7 z AND 0x9d2c5680);
          z = z XOR (push_bit 15 z AND 0xefc60000);
          z = z XOR drop_bit 18 z
      in (z, g1\<lparr>mt_p := mt_p g1 + 1\<rparr>))"

text \<open>
  \<open>std::shuffle\<close> walks the range and exchanges each element with one at a position drawn
  from the engine among the positions up to its own. The standard leaves open how a draw in
  \<open>[0, b]\<close> is cut out of the engine's output; here it is the remainder of one 32-bit
  output modulo \<open>b + 1\<close>. The properties below use only that the drawn position lies in
  \<open>[0, b]\<close>.
\<close>

definition uniform_int :: "nat \<Rightarrow> mt19937 \<Rightarrow> nat \<times> mt19937" where
  "uniform_int b g = (case mt_next g of (z, g') \<Rightarrow> (unat (z mod (of_nat b + 1)), g'))"

definition iter_swap :: "nat \<Rightarrow> nat \<Rightarrow> 'a list \<Rightarrow> 'a list" where
  "iter_swap i j xs = xs[i := xs ! j, j := xs ! i]"

fun shuffle_loop :: "nat \<Rightarrow> nat \<Rightarrow> 'a list \<Rightarrow> mt19937 \<Rightarrow> 'a list \<times> mt19937" where
  "shuffle_loop 0 i xs g = (xs, g)"
| "shuffle_loop (Suc n) i xs g =
     (case uniform_int i g of (j, g') \<Rightarrow> shuffle_loop n (Suc i) (iter_swap i j xs) g')"

definition shuffle :: "'a list \<Rightarrow> mt19937 \<Rightarrow> 'a list \<times> mt19937" where
  "shuffle xs g = shuffle_loop (length xs - 1) 1 xs g"

text \<open>\<open>std::iota(first, last, v)\<close> overwrites the range with \<open>v, v + 1, ...\<close>.\<close>

fun iota :: "size_t list \<Rightarrow> size_t \<Rightarrow> size_t list" where
  "iota [] v = []"
| "iota (x # xs) v = v # iota xs (v + 1)"

subsection \<open>getIndicesInShuffledOrder\<close>

text \<open>
  The local array \<open>indices\<close> is declared without an initializer: what it holds before
  \<open>std::iota\<close> runs is whatever the stack held, and is an input of the model next to the
  seed. The engine is a local as well, built from the seed in every call.
\<close>

definition getIndicesInShuffledOrder :: "size_t list \<Rightarrow> cint \<Rightarrow> size_t list" where
  "getIndicesInShuffledOrder indices seed =
     (let indices = iota indices 0;
          engine = mt19937_seed seed
      in fst (shuffle indices engine))"

subsection \<open>readAllInRandomOrder and updateAllInRandomOrder\<close>

text \<open>
  The two routines are templates over the table class and do nothing but call its
  \<open>readValue\<close> or \<open>updateValue\<close> once for each index, in shuffled order. Their model is the
  sequence of calls they issue; how a thread runs a call against a table class follows
  below. The pair \<open>(indices, seed)\<close> is the uninitialised array and the seed of that
  invocation.
\<close>

datatype call = ReadValue size_t | UpdateValue size_t int64_t

definition readAllInRandomOrder :: "size_t list \<times> cint \<Rightarrow> call list" where
  "readAllInRandomOrder env = map ReadValue (getIndicesInShuffledOrder (fst env) (snd env))"

definition updateAllInRandomOrder :: "int64_t \<Rightarrow> size_t list \<times> cint \<Rightarrow> call list" where
  "updateAllInRandomOrder val env =
     map (\<lambda>i. UpdateValue i val) (getIndicesInShuffledOrder (fst env) (snd env))"

fun call_index :: "call \<Rightarrow> size_t" where
  "call_index (ReadValue i) = i"
| "call_index (UpdateValue i val) = i"

section \<open>Threads running calls\<close>

subsection \<open>The member functions of the table classes, step by step\<close>

text \<open>
  A member function of a derived class constructs its guard, calls the inherited operation
  and destroys the guard. What differs between the classes is the guard: \<open>acquire\<close> is its
  constructor, run by thread \<open>t\<close> for call \<open>c\<close>, and gives no result while the thread has to
  wait; \<open>release\<close> is its destructor. The base class takes no lock.
\<close>

record 's locking =
  acquire :: "tid \<Rightarrow> call \<Rightarrow> 's \<Rightarrow> 's option"
  release :: "tid \<Rightarrow> call \<Rightarrow> 's \<Rightarrow> 's"

definition Database_locking :: "'a Database_scheme locking" where
  "Database_locking = \<lparr>acquire = (\<lambda>t c db. Some db), release = (\<lambda>t c db. db)\<rparr>"

text \<open>\<open>std::lock_guard<std::mutex> lock{mutex_}\<close> in both member functions.\<close>

definition SingleMutexDatabase_locking :: "SingleMutexDatabase locking" where
  "SingleMutexDatabase_locking =
     \<lparr>acquire = (\<lambda>t c db. case mutex_lock t (mutex db) of
                              None \<Rightarrow> None
                            | Some m \<Rightarrow> Some (db\<lparr>mutex := m\<rparr>)),
      release = (\<lambda>t c db. db\<lparr>mutex := mutex_unlock (mutex db)\<rparr>)\<rparr>"

text \<open>
  \<open>std::shared_lock lock{shared_mutex_}\<close> in \<open>readValue\<close>,
  \<open>std::unique_lock lock{shared_mutex_}\<close> in \<open>updateValue\<close>.
\<close>

definition SharedMutexDatabase_locking :: "SharedMutexDatabase locking" where
  "SharedMutexDatabase_locking =
     \<lparr>acquire = (\<lambda>t c db. case c of
                    ReadValue i \<Rightarrow>
                      (case shared_mutex_lock_shared t (shared_mutex db) of
                         None \<Rightarrow> None
                       | Some sm \<Rightarrow> Some (db\<lparr>shared_mutex := sm\<rparr>))
                  | UpdateValue i val \<Rightarrow>
                      (case shared_mutex_lock t (shared_mutex db) of
                         None \<Rightarrow> None
                       | Some sm \<Rightarrow> Some (db\<lparr>shared_mutex := sm\<rparr>))),
      release = (\<lambda>t c db. case c of
                    ReadValue i \<Rightarrow>
                      db\<lparr>shared_mutex := shared_mutex_unlock_shared t (shared_mutex db)\<rparr>
                  | UpdateValue i val \<Rightarrow>
                      db\<lparr>shared_mutex := shared_mutex_unlock (shared_mutex db)\<rparr>)\<rparr>"

text \<open>
  \<open>std::lock_guard<std::mutex> lock{mutexes_[index % mutexes_.size()]}\<close> in both member
  functions; the remainder is taken on \<open>size_t\<close>.
\<close>

definition SplitMutexDatabase_locking :: "SplitMutexDatabase locking" where
  "SplitMutexDatabase_locking =
     \<lparr>acquire = (\<lambda>t c db.
                   let k = unat (call_index c mod of_nat (length (mutexes db)))
                   in case mutex_lock t (mutexes db ! k) of
                        None \<Rightarrow> None
                      | Some m \<Rightarrow> Some (db\<lparr>mutexes := (mutexes db)[k := m]\<rparr>)),
      release = (\<lambda>t c db.
                   let k = unat (call_index c mod of_nat (length (mutexes db)))
                   in db\<lparr>mutexes := (mutexes db)[k := mutex_unlock (mutexes db ! k)]\<rparr>)\<rparr>"

subsection \<open>One thread\<close>

text \<open>
  A thread has the calls it still has to make, the first of them being the one it is in,
  and the place it has reached in that call:
  \<^item> \<open>Ready\<close>: about to enter the member function and construct the guard;
  \<^item> \<open>Locked\<close>: the guard is constructed, the inherited operation is about to access the
    cell;
  \<^item> \<open>Loaded v\<close>: inside \<open>data_.at(index) += value\<close>, the cell has been read as \<open>v\<close> and the
    sum is not yet written back (the addition on a cell is a read and a later write);
  \<^item> \<open>Unlocking\<close>: the inherited operation has returned or thrown, the guard is about to be
    destroyed.
  Other threads may run between any two steps, in particular during the calls to
  \<open>sleep_for\<close>. An exception leaves the thread after the guard is destroyed, and the
  thread makes no further calls.
\<close>

datatype phase = Ready | Locked | Loaded int64_t | Unlocking

record thread =
  pending :: "call list"
  phase :: phase
  thrown :: bool

definition start_thread :: "call list \<Rightarrow> thread" where
  "start_thread cs = \<lparr>pending = cs, phase = Ready, thrown = False\<rparr>"

text \<open>The next step of thread \<open>t\<close>; \<open>None\<close> when it has to wait or has no call left.\<close>

definition thread_step ::
  "'a Database_scheme locking \<Rightarrow> tid \<Rightarrow> thread \<Rightarrow> 'a Database_scheme
     \<Rightarrow> (thread \<times> 'a Database_scheme) option" where
  "thread_step L t th db =
     (case pending th of
        [] \<Rightarrow> None
      | c # cs \<Rightarrow>
          (case phase th of
             Ready \<Rightarrow>
               (case acquire L t c db of
                  None \<Rightarrow> None
                | Some db' \<Rightarrow> Some (th\<lparr>phase := Locked\<rparr>, db'))
           | Locked \<Rightarrow>
               (case c of
                  ReadValue i \<Rightarrow>
                    (case readValue i db of
                       (Inl e, db') \<Rightarrow> Some (th\<lparr>phase := Unlocking, thrown := True\<rparr>, db')
                     | (Inr r, db') \<Rightarrow> Some (th\<lparr>phase := Unlocking\<rparr>, db'))
                | UpdateValue i val \<Rightarrow>
                    (case at (data db) i of
                       Inl e \<Rightarrow> Some (th\<lparr>phase := Unlocking, thrown := True\<rparr>, db)
                     | Inr v \<Rightarrow> Some (th\<lparr>phase := Loaded v\<rparr>, db)))
           | Loaded v \<Rightarrow>
               (case c of
                  ReadValue i \<Rightarrow> None
                | UpdateValue i val \<Rightarrow>
                    Some (th\<lparr>phase := Unlocking\<rparr>, db\<lparr>data := (data db)[unat i := v + val]\<rparr>))
           | Unlocking \<Rightarrow>
               Some (th\<lparr>pending := (if thrown th then [] else cs), phase := Ready\<rparr>,
                     release L t c db)))"

subsection \<open>All threads\<close>

text \<open>
  The table and the threads that work on it. A schedule names the thread that takes the
  next step; a schedule that names a thread which cannot take a step is no run.
\<close>

definition sys_step ::
  "'a Database_scheme locking \<Rightarrow> tid \<Rightarrow> 'a Database_scheme \<times> thread list
     \<Rightarrow> ('a Database_scheme \<times> thread list) option" where
  "sys_step L t st =
     (case st of (db, ts) \<Rightarrow>
        if t < length ts
        then (case thread_step L t (ts ! t) db of
                None \<Rightarrow> None
              | Some (th', db') \<Rightarrow> Some (db', ts[t := th']))
        else None)"

fun sys_run ::
  "'a Database_scheme locking \<Rightarrow> tid list \<Rightarrow> 'a Database_scheme \<times> thread list
     \<Rightarrow> ('a Database_scheme \<times> thread list) option" where
  "sys_run L [] st = Some st"
| "sys_run L (t # sched) st =
     (case sys_step L t st of None \<Rightarrow> None | Some st' \<Rightarrow> sys_run L sched st')"

text \<open>Every thread has made all its calls and can be joined.\<close>

definition joined :: "thread list \<Rightarrow> bool" where
  "joined ts = list_all (\<lambda>th. pending th = []) ts"

section \<open>The harness: testDatabase and main\<close>

subsection \<open>The worker threads\<close>

text \<open>
  An updater thread runs \<open>updateAllInRandomOrder\<close> with 25, with -40 and with 15; a reader
  thread runs \<open>readAllInRandomOrder\<close> once (the \<open>repeat\<close> loops run their body once).
  \<open>env c\<close> is the uninitialised array and the seed of the thread's invocation number \<open>c\<close>.
  One \<open>testDatabase\<close> starts 100 updaters and then 1000 readers.
\<close>

definition updater :: "(nat \<Rightarrow> size_t list \<times> cint) \<Rightarrow> call list" where
  "updater env =
     updateAllInRandomOrder 25 (env 0)
     @ updateAllInRandomOrder (- 40) (env 1)
     @ updateAllInRandomOrder 15 (env 2)"

definition reader :: "(nat \<Rightarrow> size_t list \<times> cint) \<Rightarrow> call list" where
  "reader env = readAllInRandomOrder (env 0)"

definition testDatabase_threads :: "(nat \<Rightarrow> nat \<Rightarrow> size_t list \<times> cint) \<Rightarrow> thread list" where
  "testDatabase_threads env =
     map (\<lambda>t. start_thread (updater (env t))) [0..<100]
     @ map (\<lambda>t. start_thread (reader (env t))) [100..<1100]"

subsection \<open>The spawn loops and the seed\<close>

text \<open>
  Both loops in \<open>testDatabase\<close> append a thread to the vector \<open>threads\<close>; the thread's lambda
  captures the vector by reference and evaluates \<open>threads.size()\<close> as the seed argument each
  time it reaches one of its calls of a driver routine. Nothing orders these reads with the
  main thread's \<open>emplace_back\<close>. The model has three kinds of steps:
  \<^item> \<open>Start\<close>: \<open>emplace_back\<close> constructs the next \<open>std::thread\<close>, whose worker may run from
    then on;
  \<^item> \<open>Grow\<close>: \<open>emplace_back\<close> completes and \<open>threads.size()\<close> counts the new thread;
  \<^item> \<open>Seed k v\<close>: worker \<open>k\<close> (numbered from 0 in spawn order) evaluates \<open>threads.size()\<close>
    for its next invocation of a driver routine and gets \<open>v\<close>.
  A read while no \<open>emplace_back\<close> is under way yields the number of threads in the vector.
  A read that overlaps an \<open>emplace_back\<close>, which may be moving the vector's storage, is not
  constrained: it may yield any value. The field \<open>seeds\<close> records each evaluation with the
  worker that made it.
\<close>

datatype event = Start | Grow | Seed nat cint

record spawn_state =
  threads_size :: nat
  started :: nat
  seeds :: "(nat \<times> cint) list"

definition spawn_init :: spawn_state where
  "spawn_init = \<lparr>threads_size = 0, started = 0, seeds = []\<rparr>"

text \<open>The number of driver invocations in a worker's body: three for the first 100.\<close>

definition invocations :: "nat \<Rightarrow> nat" where
  "invocations k = (if k < 100 then 3 else 1)"

fun spawn_step :: "event \<Rightarrow> spawn_state \<Rightarrow> spawn_state option" where
  "spawn_step Start s =
     (if started s = threads_size s \<and> started s < 100 + 1000
      then Some (s\<lparr>started := started s + 1\<rparr>) else None)"
| "spawn_step Grow s =
     (if started s = threads_size s + 1
      then Some (s\<lparr>threads_size := threads_size s + 1\<rparr>) else None)"
| "spawn_step (Seed k v) s =
     (if k < started s \<and> length (filter (\<lambda>p. fst p = k) (seeds s)) < invocations k
         \<and> (if started s = threads_size s then v = of_nat (threads_size s) else True)
      then Some (s\<lparr>seeds := seeds s @ [(k, v)]\<rparr>) else None)"

fun spawn_run :: "event list \<Rightarrow> spawn_state \<Rightarrow> spawn_state option" where
  "spawn_run [] s = Some s"
| "spawn_run (e # es) s =
     (case spawn_step e s of None \<Rightarrow> None | Some s' \<Rightarrow> spawn_run es s')"

subsection \<open>The report\<close>

text \<open>Decimal output of \<open>operator<<\<close> for integers.\<close>

fun show_nat :: "nat \<Rightarrow> string" where
  "show_nat n =
     (if n < 10 then [''0123456789'' ! n]
      else show_nat (n div 10) @ [''0123456789'' ! (n mod 10)])"

definition show_int :: "int \<Rightarrow> string" where
  "show_int i = (if i < 0 then CHR ''-'' # show_nat (nat (- i)) else show_nat (nat i))"

definition newline :: string where
  "newline = [CHR 0x0A]"

text \<open>\<open>operator<<(std::ostream&, const Database&)\<close>: each cell and a space.\<close>

definition print_Database :: "'a Database_scheme \<Rightarrow> string" where
  "print_Database db = concat (map (\<lambda>i. show_int (sint i) @ '' '') (data db))"

definition Database_DATABASE_TYPE :: string where
  "Database_DATABASE_TYPE = ''non-threadsafe database''"

definition SingleMutexDatabase_DATABASE_TYPE :: string where
  "SingleMutexDatabase_DATABASE_TYPE = ''single mutex database''"

definition SharedMutexDatabase_DATABASE_TYPE :: string where
  "SharedMutexDatabase_DATABASE_TYPE = ''shared mutex database''"

definition SplitMutexDatabase_DATABASE_TYPE :: string where
  "SplitMutexDatabase_DATABASE_TYPE = ''split mutex database''"

text \<open>
  What \<open>testDatabase<DBTYPE>\<close> writes to \<open>std::cout\<close>, given the label of the class, the
  measured milliseconds and the table after the join. The time and, for the unlocked class,
  the table depend on the run; they are inputs here.
\<close>

definition testDatabase_output :: "string \<Rightarrow> int64_t \<Rightarrow> 'a Database_scheme \<Rightarrow> string" where
  "testDatabase_output DATABASE_TYPE elapsed db =
     ''Results for '' @ DATABASE_TYPE @ '':'' @ newline
     @ ''  Elapsed Time:      '' @ show_int (sint elapsed) @ ''ms'' @ newline
     @ ''  Database Contents: '' @ print_Database db @ newline
     @ ''  All Zero:          '' @ (if fst (isAllZero db) then ''Pass'' else ''FAILED!!!'')
     @ newline"

definition main_output ::
  "int64_t \<Rightarrow> Database \<Rightarrow> int64_t \<Rightarrow> SingleMutexDatabase
   \<Rightarrow> int64_t \<Rightarrow> SharedMutexDatabase \<Rightarrow> int64_t \<Rightarrow> SplitMutexDatabase \<Rightarrow> string" where
  "main_output e1 db1 e2 db2 e3 db3 e4 db4 =
     testDatabase_output Database_DATABASE_TYPE e1 db1
     @ testDatabase_output SingleMutexDatabase_DATABASE_TYPE e2 db2
     @ testDatabase_output SharedMutexDatabase_DATABASE_TYPE e3 db3
     @ testDatabase_output SplitMutexDatabase_DATABASE_TYPE e4 db4"

text \<open>
  The report as the specification words it: the same four blocks, with the elapsed-time
  line \<open>Elapsed Time:      <integer> ms\<close>.
\<close>

definition spec_block :: "string \<Rightarrow> int64_t \<Rightarrow> 'a Database_scheme \<Rightarrow> string" where
  "spec_block label elapsed db =
     ''Results for '' @ label @ '':'' @ newline
     @ ''  Elapsed Time:      '' @ show_int (sint elapsed) @ '' ms'' @ newline
     @ ''  Database Contents: '' @ print_Database db @ newline
     @ ''  All Zero:          '' @ (if fst (isAllZero db) then ''Pass'' else ''FAILED!!!'')
     @ newline"

definition spec_output ::
  "int64_t \<Rightarrow> Database \<Rightarrow> int64_t \<Rightarrow> SingleMutexDatabase
   \<Rightarrow> int64_t \<Rightarrow> SharedMutexDatabase \<Rightarrow> int64_t \<Rightarrow> SplitMutexDatabase \<Rightarrow> string" where
  "spec_output e1 db1 e2 db2 e3 db3 e4 db4 =
     spec_block ''non-threadsafe database'' e1 db1
     @ spec_block ''single mutex database'' e2 db2
     @ spec_block ''shared mutex database'' e3 db3
     @ spec_block ''split mutex database'' e4 db4"

section \<open>Invariants of a run\<close>

text \<open>The sum of the deltas that a sequence of calls adds to cell \<open>j\<close>.\<close>

fun delta_at :: "nat \<Rightarrow> call \<Rightarrow> int64_t" where
  "delta_at j (ReadValue i) = 0"
| "delta_at j (UpdateValue i val) = (if unat i = j then val else 0)"

definition net :: "nat \<Rightarrow> call list \<Rightarrow> int64_t" where
  "net j cs = sum_list (map (delta_at j) cs)"

text \<open>
  What a thread has still to add to cell \<open>j\<close>: the deltas of its calls, without the call
  whose sum it has already written back.
\<close>

definition owed :: "nat \<Rightarrow> thread \<Rightarrow> int64_t" where
  "owed j th =
     (case phase th of
        Ready \<Rightarrow> net j (pending th)
      | Locked \<Rightarrow> net j (pending th)
      | Loaded v \<Rightarrow> net j (pending th)
      | Unlocking \<Rightarrow> net j (tl (pending th)))"

text \<open>
  A thread is in order with the cells: it has not thrown, its calls are in range, it is
  inside a call only if it has one, and the value it has read for an addition is still the
  value of the cell.
\<close>

definition thread_ok :: "int64_t list \<Rightarrow> thread \<Rightarrow> bool" where
  "thread_ok cells th =
     (\<not> thrown th
      \<and> list_all (\<lambda>c. unat (call_index c) < length cells) (pending th)
      \<and> (case phase th of
            Ready \<Rightarrow> True
          | Locked \<Rightarrow> pending th \<noteq> []
          | Loaded v \<Rightarrow>
              (case pending th of
                 [] \<Rightarrow> False
               | c # cs \<Rightarrow>
                   (case c of ReadValue i \<Rightarrow> False | UpdateValue i val \<Rightarrow> v = cells ! unat i))
          | Unlocking \<Rightarrow> pending th \<noteq> []))"

definition table_ok ::
  "(nat \<Rightarrow> int64_t) \<Rightarrow> 'a Database_scheme \<times> thread list \<Rightarrow> bool" where
  "table_ok K st =
     (case st of (db, ts) \<Rightarrow>
        length (data db) = DATABASE_SIZE
        \<and> list_all (thread_ok (data db)) ts
        \<and> list_all (\<lambda>j. data db ! j + sum_list (map (owed j) ts) = K j) [0..<DATABASE_SIZE])"

text \<open>No two threads are between the read and the write of one cell.\<close>

definition is_loaded :: "thread \<Rightarrow> bool" where
  "is_loaded th = (case phase th of Loaded v \<Rightarrow> True | _ \<Rightarrow> False)"

definition current :: "thread \<Rightarrow> call" where
  "current th = hd (pending th)"

definition exclusive :: "thread list \<Rightarrow> bool" where
  "exclusive ts =
     (\<forall>t<length ts. \<forall>u<length ts.
        t \<noteq> u \<longrightarrow> is_loaded (ts ! t) \<longrightarrow> is_loaded (ts ! u) \<longrightarrow>
        unat (call_index (current (ts ! t))) \<noteq> unat (call_index (current (ts ! u))))"

text \<open>The steps a thread has still to take.\<close>

definition weight :: "thread \<Rightarrow> nat" where
  "weight th =
     4 * length (pending th)
     + (case phase th of Ready \<Rightarrow> 4 | Locked \<Rightarrow> 3 | Loaded v \<Rightarrow> 2 | Unlocking \<Rightarrow> 1)"

text \<open>
  What each lock says about the threads: a thread owns the lock of its class exactly while
  it is inside a call that takes this lock, and only threads of the run own locks.
\<close>

definition in_call :: "thread \<Rightarrow> bool" where
  "in_call th = (phase th \<noteq> Ready)"

fun is_update :: "call \<Rightarrow> bool" where
  "is_update (ReadValue i) = False"
| "is_update (UpdateValue i val) = True"

definition SingleMutexDatabase_inv :: "SingleMutexDatabase \<Rightarrow> thread list \<Rightarrow> bool" where
  "SingleMutexDatabase_inv db ts =
     ((\<forall>t<length ts. in_call (ts ! t) = (mutex db = Some t))
      \<and> (\<forall>t. mutex db = Some t \<longrightarrow> t < length ts))"

definition SharedMutexDatabase_inv :: "SharedMutexDatabase \<Rightarrow> thread list \<Rightarrow> bool" where
  "SharedMutexDatabase_inv db ts =
     ((\<forall>t<length ts. (in_call (ts ! t) \<and> is_update (current (ts ! t)))
                         = (writer (shared_mutex db) = Some t))
      \<and> (\<forall>t<length ts. (in_call (ts ! t) \<and> \<not> is_update (current (ts ! t)))
                         = (t \<in> readers (shared_mutex db)))
      \<and> (\<forall>t. writer (shared_mutex db) = Some t \<longrightarrow> t < length ts)
      \<and> (\<forall>t\<in>readers (shared_mutex db). t < length ts)
      \<and> (writer (shared_mutex db) \<noteq> None \<longrightarrow> readers (shared_mutex db) = {}))"

definition SplitMutexDatabase_inv :: "SplitMutexDatabase \<Rightarrow> thread list \<Rightarrow> bool" where
  "SplitMutexDatabase_inv db ts =
     (length (mutexes db) = 5
      \<and> (\<forall>t<length ts. \<forall>k<5.
            (in_call (ts ! t) \<and> unat (call_index (current (ts ! t))) mod 5 = k)
              = (mutexes db ! k = Some t))
      \<and> (\<forall>k<5. \<forall>t. mutexes db ! k = Some t \<longrightarrow> t < length ts))"

section \<open>Properties of the unlocked table\<close>

lemma wf_Database_init: "wf_Database Database_init"
  by (simp add: wf_Database_def Database_init_def)

lemma at_in_range: "unat n < length xs \<Longrightarrow> at xs n = Inr (xs ! unat n)"
  by (simp add: at_def)

lemma at_out_of_range: "\<not> unat n < length xs \<Longrightarrow> at xs n = Inl OutOfBounds"
  by (simp add: at_def)

lemma unat_less_10: "(i :: size_t) < 10 \<longleftrightarrow> unat i < 10"
  by (simp add: word_less_nat_alt)

lemma updateValue_wf:
  "wf_Database db \<Longrightarrow> wf_Database (snd (updateValue i d db))"
  by (simp add: updateValue_def wf_Database_def split: sum.splits)

text \<open>
  C3. An index outside \<open>[0, 10)\<close> makes \<open>readValue\<close> and \<open>updateValue\<close> fail with
  OutOfBounds, and the table the failing call leaves behind is the table it was given.
\<close>

theorem C3_out_of_bounds:
  assumes "wf_Database db" and "\<not> i < 10"
  shows "readValue i db = (Inl OutOfBounds, db) \<and> updateValue i d db = (Inl OutOfBounds, db)"
proof -
  from assms have "\<not> unat i < length (data db)"
    by (simp add: wf_Database_def DATABASE_SIZE_def unat_less_10)
  then have "at (data db) i = Inl OutOfBounds"
    by (rule at_out_of_range)
  then show ?thesis
    by (simp add: readValue_def updateValue_def)
qed

theorem C3_out_of_bounds_witness:
  "wf_Database Database_init \<and> \<not> (10 :: size_t) < 10
   \<and> readValue 10 Database_init = (Inl OutOfBounds, Database_init)
   \<and> updateValue 10 7 Database_init = (Inl OutOfBounds, Database_init)"
  using C3_out_of_bounds [of Database_init 10 7] wf_Database_init by simp

text \<open>
  C4. The claim: for an index in range \<open>readValue\<close> returns the stored 64-bit value of the
  cell. The code returns it as an \<open>int\<close>. After \<open>updateValue(0, 4294967296)\<close> on a fresh
  table cell 0 holds \<open>2^32\<close>, and \<open>readValue(0)\<close> returns 0.
\<close>

theorem C4_readValue_truncates:
  "snd (updateValue 0 4294967296 Database_init)
     = \<lparr>data = [4294967296, 0, 0, 0, 0, 0, 0, 0, 0, 0]\<rparr>
   \<and> fst (readValue 0 (snd (updateValue 0 4294967296 Database_init))) = Inr 0
   \<and> sint (4294967296 :: int64_t) = 4294967296
   \<and> sint (0 :: cint) = 0"
  by code_simp

text \<open>
  What the narrow return type keeps: a cell whose value fits an \<open>int\<close> is read back
  unchanged.
\<close>

lemma sint_narrow:
  fixes v :: int64_t
  assumes "- (2 ^ 31) \<le> sint v" and "sint v < 2 ^ 31"
  shows "sint (ucast v :: cint) = sint v"
proof -
  have a: "sint (ucast v :: cint) = signed_take_bit 31 (uint v)"
    by (simp add: sint_uint unsigned_ucast_eq signed_take_bit_take_bit)
  have "signed_take_bit 31 (sint v) = signed_take_bit 31 (uint v)"
    by (simp add: sint_uint signed_take_bit_signed_take_bit)
  moreover from assms have "signed_take_bit 31 (sint v) = sint v"
    by (simp add: signed_take_bit_int_eq_self_iff)
  ultimately show ?thesis
    using a by simp
qed

lemma readValue_fits:
  assumes "unat i < length (data db)"
    and "- (2 ^ 31) \<le> sint (data db ! unat i)" and "sint (data db ! unat i) < 2 ^ 31"
  shows "\<exists>r. readValue i db = (Inr r, db) \<and> sint r = sint (data db ! unat i)"
  using assms by (simp add: readValue_def at_in_range sint_narrow)

text \<open>
  C9. \<open>readValue\<close> and \<open>isAllZero\<close> leave the table as it is. \<open>updateValue\<close> with an index in
  range succeeds, adds the delta to that cell, and leaves every other cell and the number of
  cells as they are.
\<close>

theorem C9_frame:
  assumes "wf_Database db"
  shows "snd (readValue k db) = db \<and> snd (isAllZero db) = db
     \<and> (i < 10 \<longrightarrow>
          fst (updateValue i d db) = Inr ()
        \<and> length (data (snd (updateValue i d db))) = length (data db)
        \<and> data (snd (updateValue i d db)) ! unat i = data db ! unat i + d
        \<and> (\<forall>j. j \<noteq> unat i \<longrightarrow> data (snd (updateValue i d db)) ! j = data db ! j))"
proof -
  have r: "snd (readValue k db) = db"
    by (simp add: readValue_def split: sum.splits)
  have z: "snd (isAllZero db) = db"
    by (simp add: isAllZero_def)
  have u: "fst (updateValue i d db) = Inr ()
        \<and> length (data (snd (updateValue i d db))) = length (data db)
        \<and> data (snd (updateValue i d db)) ! unat i = data db ! unat i + d
        \<and> (\<forall>j. j \<noteq> unat i \<longrightarrow> data (snd (updateValue i d db)) ! j = data db ! j)"
    if "i < 10"
  proof -
    from that assms have "unat i < length (data db)"
      by (simp add: wf_Database_def DATABASE_SIZE_def unat_less_10)
    then show ?thesis
      by (simp add: updateValue_def at_in_range)
  qed
  from r z u show ?thesis by blast
qed

theorem C9_frame_witness:
  "wf_Database Database_init
   \<and> snd (readValue 3 Database_init) = Database_init
   \<and> snd (isAllZero Database_init) = Database_init
   \<and> (3 :: size_t) < 10
   \<and> snd (updateValue 3 25 Database_init) = \<lparr>data = [0, 0, 0, 25, 0, 0, 0, 0, 0, 0]\<rparr>"
proof -
  have "snd (updateValue 3 25 Database_init) = \<lparr>data = [0, 0, 0, 25, 0, 0, 0, 0, 0, 0]\<rparr>"
    by code_simp
  then show ?thesis
    using C9_frame [of Database_init 3 3 25] wf_Database_init by simp
qed

text \<open>
  C10. For an index in range, \<open>updateValue(i, d)\<close> followed by \<open>updateValue(i, -d)\<close> succeeds
  twice and gives back the table it started from.
\<close>

theorem C10_round_trip:
  assumes "wf_Database db" and "i < 10"
  shows "fst (updateValue i d db) = Inr ()
     \<and> updateValue i (- d) (snd (updateValue i d db)) = (Inr (), db)"
proof -
  from assms have "unat i < length (data db)"
    by (simp add: wf_Database_def DATABASE_SIZE_def unat_less_10)
  then show ?thesis
    by (simp add: updateValue_def at_in_range)
qed

theorem C10_round_trip_witness:
  "wf_Database Database_init \<and> (4 :: size_t) < 10
   \<and> fst (updateValue 4 25 Database_init) = Inr ()
   \<and> updateValue 4 (- 25) (snd (updateValue 4 25 Database_init)) = (Inr (), Database_init)"
  using C10_round_trip [of Database_init 4 25] wf_Database_init by simp

section \<open>Properties of the workload driver\<close>

text \<open>The engine always holds 624 state words, so every read of its state is in range.\<close>

lemma length_mt_seed_loop: "length (mt_seed_loop n i prev) = n"
  by (induction n arbitrary: i prev) (simp_all add: Let_def)

lemma length_mt19937_seed: "length (mt_x (mt19937_seed s)) = 624"
  by (simp add: mt19937_seed_def length_mt_seed_loop)

lemma length_mt_gen_rand: "length (mt_gen_rand n k x) = length x"
  by (induction n arbitrary: k x) simp_all

lemma length_mt_next: "length (mt_x (snd (mt_next g))) = length (mt_x g)"
  by (simp add: mt_next_def Let_def length_mt_gen_rand)

lemma uniform_int_le:
  assumes "b < 2 ^ 32 - 1"
  shows "fst (uniform_int b g) \<le> b"
proof -
  obtain z g' where n: "mt_next g = (z, g')"
    by (cases "mt_next g")
  from assms have m: "unat (of_nat b + 1 :: 32 word) = b + 1"
    by (simp add: unat_word_ariths unat_of_nat take_bit_eq_mod)
  have "unat (z mod (of_nat b + 1)) = unat z mod (b + 1)"
    by (simp only: unat_mod_distrib m)
  then have "unat (z mod (of_nat b + 1)) \<le> b"
    by (simp add: less_Suc_eq_le [symmetric])
  with n show ?thesis
    by (simp add: uniform_int_def)
qed

lemma iter_swap_mset:
  "i < length xs \<Longrightarrow> j < length xs \<Longrightarrow> mset (iter_swap i j xs) = mset xs"
  unfolding iter_swap_def by (simp add: mset_swap)

lemma iter_swap_length: "length (iter_swap i j xs) = length xs"
  by (simp add: iter_swap_def)

lemma shuffle_loop_mset:
  "i + n \<le> length xs \<Longrightarrow> length xs < 2 ^ 32 \<Longrightarrow>
   mset (fst (shuffle_loop n i xs g)) = mset xs"
proof (induction n arbitrary: i xs g)
  case 0
  then show ?case by simp
next
  case (Suc n)
  obtain j g' where d: "uniform_int i g = (j, g')"
    by (cases "uniform_int i g")
  from Suc.prems have "i < 2 ^ 32 - 1" by simp
  from uniform_int_le [OF this, of g] d have "j \<le> i" by simp
  with Suc.prems have ij: "i < length xs" "j < length xs" by simp_all
  have "mset (fst (shuffle_loop n (Suc i) (iter_swap i j xs) g')) = mset (iter_swap i j xs)"
    using Suc.prems by (intro Suc.IH) (simp_all add: iter_swap_length)
  with ij d show ?case
    by (simp add: iter_swap_mset)
qed

lemma shuffle_mset: "length xs < 2 ^ 32 \<Longrightarrow> mset (fst (shuffle xs g)) = mset xs"
  unfolding shuffle_def by (cases xs) (simp_all add: shuffle_loop_mset)

lemma iota_map: "iota xs v = map (\<lambda>k. v + of_nat k) [0..<length xs]"
proof (induction xs arbitrary: v)
  case Nil
  then show ?case by simp
next
  case (Cons x xs)
  have "[0..<Suc (length xs)] = 0 # map Suc [0..<length xs]"
    by (simp add: upt_conv_Cons map_Suc_upt del: upt_Suc)
  then show ?case
    by (simp add: Cons.IH comp_def add.assoc del: upt_Suc)
qed

lemma iota_10:
  "length xs = DATABASE_SIZE \<Longrightarrow> iota xs 0 = [0, 1, 2, 3, 4, 5, 6, 7, 8, 9]"
  by (simp add: iota_map DATABASE_SIZE_def upt_rec)

lemma indices_list: "map of_nat [0..<10] = [0, 1, 2, 3, 4, 5, 6, 7, 8, 9 :: size_t]"
  by (simp add: upt_rec)

lemma set_indices: "set [0, 1, 2, 3, 4, 5, 6, 7, 8, 9 :: size_t] = {i. i < 10}"
proof -
  have "set (map of_nat [0..<10]) = {i :: size_t. i < 10}"
  proof (intro set_eqI iffI)
    fix i :: size_t
    assume "i \<in> set (map of_nat [0..<10])"
    then obtain k :: nat where k: "k < 10" "i = of_nat k"
      by auto
    then have "unat i = k"
      by (simp add: unat_of_nat take_bit_nat_eq_self)
    with k show "i \<in> {i. i < 10}"
      by (simp add: unat_less_10)
  next
    fix i :: size_t
    assume "i \<in> {i. i < 10}"
    then have "unat i < 10"
      by (simp add: unat_less_10)
    then have "of_nat (unat i) \<in> (of_nat :: nat \<Rightarrow> size_t) ` {0..<10}"
      by (intro imageI) simp
    then show "i \<in> set (map of_nat [0..<10])"
      by simp
  qed
  then show ?thesis
    by (simp only: indices_list)
qed

lemma getIndicesInShuffledOrder_mset:
  assumes "length indices = DATABASE_SIZE"
  shows "mset (getIndicesInShuffledOrder indices seed) = mset [0, 1, 2, 3, 4, 5, 6, 7, 8, 9]"
proof -
  have "length [0, 1, 2, 3, 4, 5, 6, 7, 8, 9 :: size_t] < 2 ^ 32"
    by simp
  then show ?thesis
    unfolding getIndicesInShuffledOrder_def Let_def iota_10 [OF assms]
    by (rule shuffle_mset)
qed

lemma getIndicesInShuffledOrder_set:
  assumes "length indices = DATABASE_SIZE"
  shows "set (getIndicesInShuffledOrder indices seed) = {i. i < 10}"
proof -
  have "set (getIndicesInShuffledOrder indices seed) = set [0, 1, 2, 3, 4, 5, 6, 7, 8, 9 :: size_t]"
    by (rule mset_eq_setD) (rule getIndicesInShuffledOrder_mset [OF assms])
  then show ?thesis
    by (simp only: set_indices)
qed

text \<open>
  C2. For every seed (and whatever the local array held before it was filled)
  \<open>getIndicesInShuffledOrder\<close> returns 10 indices in which each of 0, ..., 9 occurs exactly
  once.
\<close>

theorem C2_permutation:
  assumes "length indices = DATABASE_SIZE"
  shows "length (getIndicesInShuffledOrder indices seed) = 10
     \<and> mset (getIndicesInShuffledOrder indices seed) = mset [0, 1, 2, 3, 4, 5, 6, 7, 8, 9]
     \<and> distinct (getIndicesInShuffledOrder indices seed)
     \<and> set (getIndicesInShuffledOrder indices seed) = {i. i < 10}"
proof -
  let ?r = "getIndicesInShuffledOrder indices seed"
  have m: "mset ?r = mset [0, 1, 2, 3, 4, 5, 6, 7, 8, 9]"
    by (rule getIndicesInShuffledOrder_mset [OF assms])
  have "length ?r = length [0, 1, 2, 3, 4, 5, 6, 7, 8, 9 :: size_t]"
    by (rule mset_eq_length [OF m])
  then have l: "length ?r = 10"
    by simp
  have "distinct [0, 1, 2, 3, 4, 5, 6, 7, 8, 9 :: size_t]"
    by simp
  with m have d: "distinct ?r"
    by (metis mset_eq_imp_distinct_iff)
  have s: "set ?r = {i. i < 10}"
    by (rule getIndicesInShuffledOrder_set [OF assms])
  from m l d s show ?thesis by simp
qed

theorem C2_permutation_witness:
  "length [7, 7, 7, 7, 7, 7, 7, 7, 7, 7 :: size_t] = DATABASE_SIZE
   \<and> length (getIndicesInShuffledOrder [7, 7, 7, 7, 7, 7, 7, 7, 7, 7] 42) = 10
   \<and> mset (getIndicesInShuffledOrder [7, 7, 7, 7, 7, 7, 7, 7, 7, 7] 42)
       = mset [0, 1, 2, 3, 4, 5, 6, 7, 8, 9]
   \<and> distinct (getIndicesInShuffledOrder [7, 7, 7, 7, 7, 7, 7, 7, 7, 7] 42)
   \<and> set (getIndicesInShuffledOrder [7, 7, 7, 7, 7, 7, 7, 7, 7, 7] 42) = {i. i < 10}"
proof -
  have h: "length [7, 7, 7, 7, 7, 7, 7, 7, 7, 7 :: size_t] = DATABASE_SIZE"
    by (simp add: DATABASE_SIZE_def)
  show ?thesis
    using h C2_permutation [OF h, of 42] by blast
qed

text \<open>
  C7. The result of \<open>getIndicesInShuffledOrder\<close> is a function of the seed alone. The engine
  is built from the seed inside the call and no state outlives the call; the only other
  thing a call starts from is the content of its uninitialised local array, and two
  invocations with the same seed return the same sequence whatever that content is.
\<close>

theorem C7_deterministic:
  assumes "length a = DATABASE_SIZE" and "length b = DATABASE_SIZE"
  shows "getIndicesInShuffledOrder a seed = getIndicesInShuffledOrder b seed"
  unfolding getIndicesInShuffledOrder_def Let_def iota_10 [OF assms(1)] iota_10 [OF assms(2)]
  by (rule refl)

theorem C7_deterministic_witness:
  "length [0, 0, 0, 0, 0, 0, 0, 0, 0, 0 :: size_t] = DATABASE_SIZE
   \<and> length [9, 0, 2, 6, 7, 8, 1, 4, 3, 5 :: size_t] = DATABASE_SIZE
   \<and> getIndicesInShuffledOrder [0, 0, 0, 0, 0, 0, 0, 0, 0, 0] 42
       = getIndicesInShuffledOrder [9, 0, 2, 6, 7, 8, 1, 4, 3, 5] 42"
proof -
  have a: "length [0, 0, 0, 0, 0, 0, 0, 0, 0, 0 :: size_t] = DATABASE_SIZE"
    by (simp add: DATABASE_SIZE_def)
  have b: "length [9, 0, 2, 6, 7, 8, 1, 4, 3, 5 :: size_t] = DATABASE_SIZE"
    by (simp add: DATABASE_SIZE_def)
  show ?thesis
    using a b C7_deterministic [OF a b, of 42] by blast
qed

section \<open>Properties of the threads\<close>

subsection \<open>The steps of a thread\<close>

lemma at_Inr_iff: "at xs n = Inr v \<longleftrightarrow> unat n < length xs \<and> v = xs ! unat n"
  by (auto simp: at_def)

lemma thread_ok_in_range:
  "thread_ok cells th \<Longrightarrow> pending th = c # cs \<Longrightarrow> unat (call_index c) < length cells"
  by (simp add: thread_ok_def)

lemma thread_ok_not_thrown: "thread_ok cells th \<Longrightarrow> \<not> thrown th"
  by (simp add: thread_ok_def)

lemma thread_step_cases:
  assumes "thread_step L t th db = Some (th', db')" and "thread_ok (data db) th"
  obtains
    (Acquire) c cs where "pending th = c # cs" and "phase th = Ready"
      and "acquire L t c db = Some db'" and "th' = th\<lparr>phase := Locked\<rparr>"
  | (Read) i cs where "pending th = ReadValue i # cs" and "phase th = Locked"
      and "db' = db" and "th' = th\<lparr>phase := Unlocking\<rparr>"
  | (Load) i d cs where "pending th = UpdateValue i d # cs" and "phase th = Locked"
      and "db' = db" and "th' = th\<lparr>phase := Loaded (data db ! unat i)\<rparr>"
  | (Store) i d cs where "pending th = UpdateValue i d # cs"
      and "phase th = Loaded (data db ! unat i)"
      and "db' = db\<lparr>data := (data db)[unat i := data db ! unat i + d]\<rparr>"
      and "th' = th\<lparr>phase := Unlocking\<rparr>"
  | (Release) c cs where "pending th = c # cs" and "phase th = Unlocking"
      and "db' = release L t c db" and "th' = th\<lparr>pending := cs, phase := Ready\<rparr>"
proof (cases "pending th")
  case Nil
  with assms(1) show ?thesis
    by (simp add: thread_step_def)
next
  case (Cons c cs)
  from assms(2) Cons have r: "unat (call_index c) < length (data db)"
    by (rule thread_ok_in_range)
  from assms(2) have nt: "\<not> thrown th"
    by (rule thread_ok_not_thrown)
  show ?thesis
  proof (cases "phase th")
    case Ready
    with assms(1) Cons show ?thesis
      by (intro Acquire [of c cs]) (auto simp: thread_step_def split: option.splits)
  next
    case Locked
    show ?thesis
    proof (cases c)
      case (ReadValue i)
      with r have "readValue i db = (Inr (ucast (data db ! unat i)), db)"
        by (simp add: readValue_def at_in_range)
      with assms(1) Cons Locked ReadValue show ?thesis
        by (intro Read [of i cs]) (auto simp: thread_step_def)
    next
      case (UpdateValue i d)
      with r have "at (data db) i = Inr (data db ! unat i)"
        by (simp add: at_in_range)
      with assms(1) Cons Locked UpdateValue show ?thesis
        by (intro Load [of i d cs]) (auto simp: thread_step_def)
    qed
  next
    case (Loaded v)
    with assms(2) Cons obtain i d where c: "c = UpdateValue i d" and v: "v = data db ! unat i"
      by (cases c) (auto simp: thread_ok_def)
    with assms(1) Cons Loaded show ?thesis
      by (intro Store [of i d cs]) (auto simp: thread_step_def)
  next
    case Unlocking
    with assms(1) Cons nt show ?thesis
      by (intro Release [of c cs]) (auto simp: thread_step_def)
  qed
qed

lemma thread_step_weight:
  "thread_step L t th db = Some (th', db') \<Longrightarrow> weight th' < weight th"
  by (auto simp: thread_step_def weight_def
      split: list.splits phase.splits option.splits call.splits sum.splits prod.splits if_splits)

subsection \<open>Sums over the threads\<close>

lemma sum_list_map_update:
  fixes f :: "'a \<Rightarrow> 'b :: ab_group_add"
  shows "k < length xs \<Longrightarrow>
    sum_list (map f (xs[k := x])) = sum_list (map f xs) - f (xs ! k) + f x"
proof (induction xs arbitrary: k)
  case Nil
  then show ?case by simp
next
  case (Cons a xs)
  then show ?case
    by (cases k) (simp_all add: algebra_simps)
qed

lemma sum_list_map_update_nat:
  fixes f :: "'a \<Rightarrow> nat"
  shows "k < length xs \<Longrightarrow>
    sum_list (map f (xs[k := x])) + f (xs ! k) = sum_list (map f xs) + f x"
proof (induction xs arbitrary: k)
  case Nil
  then show ?case by simp
next
  case (Cons a xs)
  then show ?case
    by (cases k) (simp_all add: algebra_simps)
qed

lemma net_Nil: "net j [] = 0"
  by (simp add: net_def)

lemma net_Cons: "net j (c # cs) = delta_at j c + net j cs"
  by (simp add: net_def)

lemma net_append: "net j (xs @ ys) = net j xs + net j ys"
  by (simp add: net_def)

subsection \<open>A step keeps the cells and the threads in order\<close>

lemma owed_step:
  assumes "thread_step L t th db = Some (th', db')" and "thread_ok (data db) th"
    and "\<And>t c db db'. acquire L t c db = Some db' \<Longrightarrow> data db' = data db"
    and "\<And>t c db. data (release L t c db) = data db"
  shows "length (data db') = length (data db)"
    and "data db' ! j + owed j th' = data db ! j + owed j th"
    and "thread_ok (data db') th'"
  using assms(1,2)
proof (atomize (full), cases rule: thread_step_cases)
  case (Acquire c cs)
  with assms(2,3) show "length (data db') = length (data db)
      \<and> data db' ! j + owed j th' = data db ! j + owed j th \<and> thread_ok (data db') th'"
    by (auto simp: owed_def thread_ok_def)
next
  case (Read i cs)
  with assms(2) show "length (data db') = length (data db)
      \<and> data db' ! j + owed j th' = data db ! j + owed j th \<and> thread_ok (data db') th'"
    by (auto simp: owed_def thread_ok_def net_Cons)
next
  case (Load i d cs)
  with assms(2) show "length (data db') = length (data db)
      \<and> data db' ! j + owed j th' = data db ! j + owed j th \<and> thread_ok (data db') th'"
    by (auto simp: owed_def thread_ok_def)
next
  case (Store i d cs)
  with assms(2) show "length (data db') = length (data db)
      \<and> data db' ! j + owed j th' = data db ! j + owed j th \<and> thread_ok (data db') th'"
    by (auto simp: owed_def thread_ok_def net_Cons nth_list_update)
next
  case (Release c cs)
  with assms(2,4) show "length (data db') = length (data db)
      \<and> data db' ! j + owed j th' = data db ! j + owed j th \<and> thread_ok (data db') th'"
    by (auto simp: owed_def thread_ok_def)
qed

lemma other_thread_ok:
  assumes "thread_step L t th db = Some (th', db')" and "thread_ok (data db) th"
    and "thread_ok (data db) other"
    and "is_loaded th \<Longrightarrow> is_loaded other \<Longrightarrow>
           unat (call_index (current th)) \<noteq> unat (call_index (current other))"
    and "\<And>t c db db'. acquire L t c db = Some db' \<Longrightarrow> data db' = data db"
    and "\<And>t c db. data (release L t c db) = data db"
  shows "thread_ok (data db') other"
  using assms(1,2)
proof (cases rule: thread_step_cases)
  case (Acquire c cs)
  with assms(3,5) show ?thesis by simp
next
  case (Read i cs)
  with assms(3) show ?thesis by simp
next
  case (Load i d cs)
  with assms(3) show ?thesis by simp
next
  case (Store i d cs)
  then have l: "is_loaded th" and c: "current th = UpdateValue i d"
    by (simp_all add: is_loaded_def current_def)
  show ?thesis
  proof (cases "is_loaded other")
    case True
    from assms(4) [OF l True] c have "unat i \<noteq> unat (call_index (current other))"
      by simp
    with assms(3) Store(3) show ?thesis
      by (auto simp: thread_ok_def current_def split: phase.splits list.splits call.splits)
  next
    case False
    with assms(3) Store(3) show ?thesis
      by (auto simp: thread_ok_def is_loaded_def split: phase.splits)
  qed
next
  case (Release c cs)
  with assms(3,6) show ?thesis by simp
qed

lemma table_ok_step:
  assumes ok: "table_ok K (db, ts)" and ex: "exclusive ts" and t: "t < length ts"
    and step: "thread_step L t (ts ! t) db = Some (th', db')"
    and acq: "\<And>t c db db'. acquire L t c db = Some db' \<Longrightarrow> data db' = data db"
    and rel: "\<And>t c db. data (release L t c db) = data db"
  shows "table_ok K (db', ts[t := th'])"
proof -
  from ok have len: "length (data db) = DATABASE_SIZE"
    and oks: "\<And>u. u < length ts \<Longrightarrow> thread_ok (data db) (ts ! u)"
    and sums: "\<And>j. j < DATABASE_SIZE \<Longrightarrow> data db ! j + sum_list (map (owed j) ts) = K j"
    by (simp_all add: table_ok_def list_all_length)
  have okt: "thread_ok (data db) (ts ! t)"
    by (rule oks [OF t])
  note st = owed_step [OF step okt acq rel]
  have len': "length (data db') = DATABASE_SIZE"
    using st(1) len by simp
  have oks': "thread_ok (data db') (ts[t := th'] ! u)" if u: "u < length ts" for u
  proof (cases "u = t")
    case True
    with u st(3) show ?thesis by simp
  next
    case False
    have "thread_ok (data db') (ts ! u)"
    proof (rule other_thread_ok [OF step okt oks [OF u] _ acq rel])
      assume "is_loaded (ts ! t)" and "is_loaded (ts ! u)"
      with ex t u False
      show "unat (call_index (current (ts ! t))) \<noteq> unat (call_index (current (ts ! u)))"
        by (simp add: exclusive_def)
    qed
    with False show ?thesis by simp
  qed
  have sums': "data db' ! j + sum_list (map (owed j) (ts[t := th'])) = K j"
    if j: "j < DATABASE_SIZE" for j
  proof -
    have "data db' ! j + sum_list (map (owed j) (ts[t := th']))
        = (data db' ! j + owed j th') + sum_list (map (owed j) ts) - owed j (ts ! t)"
      by (simp add: sum_list_map_update [OF t] algebra_simps)
    also have "\<dots> = data db ! j + sum_list (map (owed j) ts)"
      using st(2) [where j = j] by (simp add: algebra_simps)
    finally show ?thesis
      by (simp add: sums [OF j])
  qed
  from len' oks' sums' show ?thesis
    by (simp add: table_ok_def list_all_length)
qed

subsection \<open>Runs\<close>

lemma sys_step_Some:
  "sys_step L t (db, ts) = Some (db', ts') \<longleftrightarrow>
     t < length ts \<and> (\<exists>th'. thread_step L t (ts ! t) db = Some (th', db') \<and> ts' = ts[t := th'])"
  by (auto simp: sys_step_def split: option.splits)

lemma sys_run_append:
  "sys_run L (xs @ ys) st =
     (case sys_run L xs st of None \<Rightarrow> None | Some st' \<Rightarrow> sys_run L ys st')"
  by (induction xs arbitrary: st) (simp_all split: option.splits)

text \<open>An invariant that every step keeps holds after every run.\<close>

lemma sys_run_invariant:
  assumes pres: "\<And>db ts t th' db'. I db ts \<Longrightarrow> t < length ts \<Longrightarrow>
        thread_step L t (ts ! t) db = Some (th', db') \<Longrightarrow> I db' (ts[t := th'])"
    and "I db ts" and "sys_run L sched (db, ts) = Some (db', ts')"
  shows "I db' ts'"
  using assms(2,3)
proof (induction sched arbitrary: db ts)
  case Nil
  then show ?case by simp
next
  case (Cons t sched)
  from Cons.prems(2) obtain db1 ts1 where s: "sys_step L t (db, ts) = Some (db1, ts1)"
    and r: "sys_run L sched (db1, ts1) = Some (db', ts')"
    by (auto split: option.splits)
  from s obtain th' where "t < length ts" "thread_step L t (ts ! t) db = Some (th', db1)"
    "ts1 = ts[t := th']"
    by (auto simp: sys_step_Some)
  with pres [OF Cons.prems(1)] have "I db1 ts1"
    by simp
  from Cons.IH [OF this r] show ?case .
qed

text \<open>
  If every step keeps an invariant and, under it, some thread can take a step as long as
  not all are done, then every state with the invariant has a run to the end.
\<close>

lemma sys_run_complete:
  assumes pres: "\<And>db ts t th' db'. I db ts \<Longrightarrow> t < length ts \<Longrightarrow>
        thread_step L t (ts ! t) db = Some (th', db') \<Longrightarrow> I db' (ts[t := th'])"
    and live: "\<And>db ts. I db ts \<Longrightarrow> \<not> joined ts \<Longrightarrow>
        \<exists>t<length ts. thread_step L t (ts ! t) db \<noteq> None"
    and "I db ts"
  shows "\<exists>sched db' ts'. sys_run L sched (db, ts) = Some (db', ts') \<and> joined ts'"
  using assms(3)
proof (induction "sum_list (map weight ts)" arbitrary: db ts rule: less_induct)
  case less
  show ?case
  proof (cases "joined ts")
    case True
    then have "sys_run L [] (db, ts) = Some (db, ts) \<and> joined ts"
      by simp
    then show ?thesis by blast
  next
    case False
    from live [OF less.prems False] obtain t th' db1 where t: "t < length ts"
      and s: "thread_step L t (ts ! t) db = Some (th', db1)"
      by auto
    have i: "I db1 (ts[t := th'])"
      by (rule pres [OF less.prems t s])
    have "sum_list (map weight (ts[t := th'])) + weight (ts ! t)
        = sum_list (map weight ts) + weight th'"
      by (rule sum_list_map_update_nat [OF t])
    with thread_step_weight [OF s]
    have "sum_list (map weight (ts[t := th'])) < sum_list (map weight ts)"
      by simp
    from less.hyps [OF this i] obtain sched db' ts'
      where r: "sys_run L sched (db1, ts[t := th']) = Some (db', ts')" and j: "joined ts'"
      by blast
    from t s r have "sys_run L (t # sched) (db, ts) = Some (db', ts')"
      by (simp add: sys_step_def)
    with j show ?thesis by blast
  qed
qed

text \<open>When all threads are done, the cells hold what the invariant says.\<close>

lemma owed_done: "thread_ok cells th \<Longrightarrow> pending th = [] \<Longrightarrow> owed j th = 0"
  by (auto simp: thread_ok_def owed_def net_Nil split: phase.splits)

lemma sum_list_zero:
  fixes f :: "'a \<Rightarrow> int64_t"
  shows "(\<And>x. x \<in> set xs \<Longrightarrow> f x = 0) \<Longrightarrow> sum_list (map f xs) = 0"
  by (induction xs) simp_all

lemma table_ok_joined:
  assumes "table_ok K (db, ts)" and "joined ts" and "j < DATABASE_SIZE"
  shows "data db ! j = K j"
proof -
  have "owed j th = 0" if "th \<in> set ts" for th
    using assms(1,2) that by (intro owed_done [of "data db"]) (auto simp: table_ok_def joined_def list_all_iff)
  then have z: "sum_list (map (owed j) ts) = 0"
    by (rule sum_list_zero)
  from assms(1,3) have "data db ! j + sum_list (map (owed j) ts) = K j"
    by (simp add: table_ok_def list_all_iff)
  with z show ?thesis
    by simp
qed

section \<open>What the locks guarantee\<close>

lemma thread_step_in_call:
  "thread_ok cells th \<Longrightarrow> in_call th \<Longrightarrow> thread_step L t th db \<noteq> None"
  by (auto simp: thread_ok_def in_call_def thread_step_def
      split: phase.splits list.splits call.splits sum.splits prod.splits)

lemma thread_step_Ready:
  "pending th = c # cs \<Longrightarrow> phase th = Ready \<Longrightarrow> acquire L t c db \<noteq> None \<Longrightarrow>
   thread_step L t th db \<noteq> None"
  by (auto simp: thread_step_def)

lemma not_joined: "\<not> joined ts \<Longrightarrow> \<exists>t<length ts. pending (ts ! t) \<noteq> []"
  by (auto simp: joined_def list_all_length)

lemma loaded_in_call: "is_loaded th \<Longrightarrow> in_call th"
  by (auto simp: is_loaded_def in_call_def split: phase.splits)

lemma loaded_is_update: "thread_ok cells th \<Longrightarrow> is_loaded th \<Longrightarrow> is_update (current th)"
  by (auto simp: thread_ok_def is_loaded_def current_def split: phase.splits list.splits call.splits)

lemma threads_ok: "table_ok K (db, ts) \<Longrightarrow> t < length ts \<Longrightarrow> thread_ok (data db) (ts ! t)"
  by (simp add: table_ok_def list_all_length)

subsection \<open>The single mutex\<close>

lemma SingleMutexDatabase_acquire_data:
  "acquire SingleMutexDatabase_locking t c db = Some db' \<Longrightarrow> data db' = data db"
  by (auto simp: SingleMutexDatabase_locking_def mutex_lock_def split: option.splits)

lemma SingleMutexDatabase_release_data:
  "data (release SingleMutexDatabase_locking t c db) = data db"
  by (simp add: SingleMutexDatabase_locking_def)

lemma SingleMutexDatabase_inv_step:
  assumes "SingleMutexDatabase_inv db ts" and "table_ok K (db, ts)" and t: "t < length ts"
    and step: "thread_step SingleMutexDatabase_locking t (ts ! t) db = Some (th', db')"
  shows "SingleMutexDatabase_inv db' (ts[t := th'])"
  using step threads_ok [OF assms(2) t]
proof (cases rule: thread_step_cases)
  case (Acquire c cs)
  with assms(1) t show ?thesis
    by (auto simp: SingleMutexDatabase_inv_def SingleMutexDatabase_locking_def mutex_lock_def
        in_call_def nth_list_update split: option.splits)
next
  case (Read i cs)
  with assms(1) t show ?thesis
    by (auto simp: SingleMutexDatabase_inv_def in_call_def nth_list_update)
next
  case (Load i d cs)
  with assms(1) t show ?thesis
    by (auto simp: SingleMutexDatabase_inv_def in_call_def nth_list_update)
next
  case (Store i d cs)
  with assms(1) t show ?thesis
    by (auto simp: SingleMutexDatabase_inv_def in_call_def nth_list_update)
next
  case (Release c cs)
  with assms(1) t have own: "mutex db = Some t"
    by (auto simp: SingleMutexDatabase_inv_def in_call_def)
  with assms(1) t Release show ?thesis
    by (auto simp: SingleMutexDatabase_inv_def SingleMutexDatabase_locking_def mutex_unlock_def
        in_call_def nth_list_update)
qed

lemma SingleMutexDatabase_exclusive:
  "SingleMutexDatabase_inv db ts \<Longrightarrow> exclusive ts"
  by (auto simp: SingleMutexDatabase_inv_def exclusive_def dest!: loaded_in_call)

lemma SingleMutexDatabase_live:
  assumes inv: "SingleMutexDatabase_inv db ts" and ok: "table_ok K (db, ts)" and "\<not> joined ts"
  shows "\<exists>t<length ts. thread_step SingleMutexDatabase_locking t (ts ! t) db \<noteq> None"
proof (cases "\<exists>u<length ts. in_call (ts ! u)")
  case True
  then obtain u where u: "u < length ts" "in_call (ts ! u)"
    by blast
  from thread_step_in_call [OF threads_ok [OF ok u(1)] u(2)] u(1) show ?thesis
    by blast
next
  case False
  with inv have free: "mutex db = None"
    by (cases "mutex db") (auto simp: SingleMutexDatabase_inv_def)
  from assms(3) obtain t where t: "t < length ts" "pending (ts ! t) \<noteq> []"
    by (auto dest: not_joined)
  then obtain c cs where p: "pending (ts ! t) = c # cs"
    by (cases "pending (ts ! t)") auto
  from False t have r: "phase (ts ! t) = Ready"
    by (auto simp: in_call_def)
  from free have "acquire SingleMutexDatabase_locking t c db \<noteq> None"
    by (simp add: SingleMutexDatabase_locking_def mutex_lock_def)
  from thread_step_Ready [OF p r this] t(1) show ?thesis
    by blast
qed

subsection \<open>The shared mutex\<close>

lemma SharedMutexDatabase_acquire_data:
  "acquire SharedMutexDatabase_locking t c db = Some db' \<Longrightarrow> data db' = data db"
  by (auto simp: SharedMutexDatabase_locking_def split: call.splits option.splits)

lemma SharedMutexDatabase_release_data:
  "data (release SharedMutexDatabase_locking t c db) = data db"
  by (simp add: SharedMutexDatabase_locking_def split: call.splits)

lemma current_Cons: "pending th = c # cs \<Longrightarrow> current th = c"
  by (simp add: current_def)

lemma SharedMutexDatabase_invI:
  assumes "\<And>t. t < length ts \<Longrightarrow>
        (in_call (ts ! t) \<and> is_update (current (ts ! t))) = (writer (shared_mutex db) = Some t)"
    and "\<And>t. t < length ts \<Longrightarrow>
        (in_call (ts ! t) \<and> \<not> is_update (current (ts ! t))) = (t \<in> readers (shared_mutex db))"
    and "\<And>t. writer (shared_mutex db) = Some t \<Longrightarrow> t < length ts"
    and "\<And>t. t \<in> readers (shared_mutex db) \<Longrightarrow> t < length ts"
    and "writer (shared_mutex db) \<noteq> None \<Longrightarrow> readers (shared_mutex db) = {}"
  shows "SharedMutexDatabase_inv db ts"
  using assms unfolding SharedMutexDatabase_inv_def by blast

lemma SharedMutexDatabase_inv_writer:
  "SharedMutexDatabase_inv db ts \<Longrightarrow> t < length ts \<Longrightarrow>
   (writer (shared_mutex db) = Some t) = (in_call (ts ! t) \<and> is_update (current (ts ! t)))"
  by (simp add: SharedMutexDatabase_inv_def)

lemma SharedMutexDatabase_inv_reader:
  "SharedMutexDatabase_inv db ts \<Longrightarrow> t < length ts \<Longrightarrow>
   (t \<in> readers (shared_mutex db)) = (in_call (ts ! t) \<and> \<not> is_update (current (ts ! t)))"
  by (simp add: SharedMutexDatabase_inv_def)

lemma SharedMutexDatabase_inv_writer_valid:
  "SharedMutexDatabase_inv db ts \<Longrightarrow> writer (shared_mutex db) = Some t \<Longrightarrow> t < length ts"
  by (simp add: SharedMutexDatabase_inv_def)

lemma SharedMutexDatabase_inv_reader_valid:
  "SharedMutexDatabase_inv db ts \<Longrightarrow> t \<in> readers (shared_mutex db) \<Longrightarrow> t < length ts"
  by (simp add: SharedMutexDatabase_inv_def)

lemma SharedMutexDatabase_inv_writer_alone:
  "SharedMutexDatabase_inv db ts \<Longrightarrow> writer (shared_mutex db) \<noteq> None \<Longrightarrow>
   readers (shared_mutex db) = {}"
  by (simp add: SharedMutexDatabase_inv_def)

lemma SharedMutexDatabase_inv_same:
  assumes inv: "SharedMutexDatabase_inv db ts" and t: "t < length ts"
    and sm: "shared_mutex db' = shared_mutex db"
    and same: "in_call th' = in_call (ts ! t)" "current th' = current (ts ! t)"
  shows "SharedMutexDatabase_inv db' (ts[t := th'])"
proof (rule SharedMutexDatabase_invI)
  fix u
  assume "u < length (ts[t := th'])"
  then have u: "u < length ts"
    by simp
  show "(in_call (ts[t := th'] ! u) \<and> is_update (current (ts[t := th'] ! u)))
      = (writer (shared_mutex db') = Some u)"
    using SharedMutexDatabase_inv_writer [OF inv u] t same
    by (cases "u = t") (simp_all add: sm)
  show "(in_call (ts[t := th'] ! u) \<and> \<not> is_update (current (ts[t := th'] ! u)))
      = (u \<in> readers (shared_mutex db'))"
    using SharedMutexDatabase_inv_reader [OF inv u] t same
    by (cases "u = t") (simp_all add: sm)
next
  fix u
  assume "writer (shared_mutex db') = Some u"
  then show "u < length (ts[t := th'])"
    using SharedMutexDatabase_inv_writer_valid [OF inv, of u] by (simp add: sm)
next
  fix u
  assume "u \<in> readers (shared_mutex db')"
  then show "u < length (ts[t := th'])"
    using SharedMutexDatabase_inv_reader_valid [OF inv, of u] by (simp add: sm)
next
  assume "writer (shared_mutex db') \<noteq> None"
  then show "readers (shared_mutex db') = {}"
    using SharedMutexDatabase_inv_writer_alone [OF inv] by (simp add: sm)
qed

text \<open>A step that changes the lock: the stepping thread enters or leaves its call.\<close>

lemma SharedMutexDatabase_inv_change:
  assumes inv: "SharedMutexDatabase_inv db ts" and t: "t < length ts"
    and w: "\<And>u. u \<noteq> t \<Longrightarrow> (writer sm = Some u) = (writer (shared_mutex db) = Some u)"
    and r: "\<And>u. u \<noteq> t \<Longrightarrow> (u \<in> readers sm) = (u \<in> readers (shared_mutex db))"
    and wt: "(writer sm = Some t) = (in_call th' \<and> is_update (current th'))"
    and rt: "(t \<in> readers sm) = (in_call th' \<and> \<not> is_update (current th'))"
    and x: "writer sm \<noteq> None \<Longrightarrow> readers sm = {}"
  shows "SharedMutexDatabase_inv (db\<lparr>shared_mutex := sm\<rparr>) (ts[t := th'])"
proof (rule SharedMutexDatabase_invI)
  fix u
  assume "u < length (ts[t := th'])"
  then have u: "u < length ts"
    by simp
  show "(in_call (ts[t := th'] ! u) \<and> is_update (current (ts[t := th'] ! u)))
      = (writer (shared_mutex (db\<lparr>shared_mutex := sm\<rparr>)) = Some u)"
    using SharedMutexDatabase_inv_writer [OF inv u] t w [of u] wt
    by (cases "u = t") simp_all
  show "(in_call (ts[t := th'] ! u) \<and> \<not> is_update (current (ts[t := th'] ! u)))
      = (u \<in> readers (shared_mutex (db\<lparr>shared_mutex := sm\<rparr>)))"
    using SharedMutexDatabase_inv_reader [OF inv u] t r [of u] rt
    by (cases "u = t") simp_all
next
  fix u
  assume a: "writer (shared_mutex (db\<lparr>shared_mutex := sm\<rparr>)) = Some u"
  show "u < length (ts[t := th'])"
  proof (cases "u = t")
    case True
    with t show ?thesis by simp
  next
    case False
    with a w [of u] have "writer (shared_mutex db) = Some u"
      by simp
    then show ?thesis
      using SharedMutexDatabase_inv_writer_valid [OF inv] by simp
  qed
next
  fix u
  assume a: "u \<in> readers (shared_mutex (db\<lparr>shared_mutex := sm\<rparr>))"
  show "u < length (ts[t := th'])"
  proof (cases "u = t")
    case True
    with t show ?thesis by simp
  next
    case False
    with a r [of u] have "u \<in> readers (shared_mutex db)"
      by simp
    then show ?thesis
      using SharedMutexDatabase_inv_reader_valid [OF inv] by simp
  qed
next
  assume "writer (shared_mutex (db\<lparr>shared_mutex := sm\<rparr>)) \<noteq> None"
  then show "readers (shared_mutex (db\<lparr>shared_mutex := sm\<rparr>)) = {}"
    using x by simp
qed

lemma SharedMutexDatabase_inv_step:
  assumes inv: "SharedMutexDatabase_inv db ts" and "table_ok K (db, ts)" and t: "t < length ts"
    and step: "thread_step SharedMutexDatabase_locking t (ts ! t) db = Some (th', db')"
  shows "SharedMutexDatabase_inv db' (ts[t := th'])"
  using step threads_ok [OF assms(2) t]
proof (cases rule: thread_step_cases)
  case (Acquire c cs)
  have cur: "in_call th'" "current th' = c"
    using Acquire(1,4) by (simp_all add: in_call_def current_def)
  show ?thesis
  proof (cases c)
    case (ReadValue i)
    let ?sm = "(shared_mutex db)\<lparr>readers := insert t (readers (shared_mutex db))\<rparr>"
    from Acquire(3) ReadValue have w: "writer (shared_mutex db) = None"
      and db': "db' = db\<lparr>shared_mutex := ?sm\<rparr>"
      by (simp_all add: SharedMutexDatabase_locking_def shared_mutex_lock_shared_def
          split: if_splits)
    show ?thesis
      unfolding db'
      by (rule SharedMutexDatabase_inv_change [OF inv t]) (simp_all add: w cur ReadValue)
  next
    case (UpdateValue i d)
    let ?sm = "(shared_mutex db)\<lparr>writer := Some t\<rparr>"
    from Acquire(3) UpdateValue have w: "writer (shared_mutex db) = None"
      and r: "readers (shared_mutex db) = {}"
      and db': "db' = db\<lparr>shared_mutex := ?sm\<rparr>"
      by (simp_all add: SharedMutexDatabase_locking_def shared_mutex_lock_def split: if_splits)
    show ?thesis
      unfolding db'
      by (rule SharedMutexDatabase_inv_change [OF inv t]) (simp_all add: w r cur UpdateValue)
  qed
next
  case (Read i cs)
  then show ?thesis
    by (intro SharedMutexDatabase_inv_same [OF inv t]) (simp_all add: in_call_def current_def)
next
  case (Load i d cs)
  then show ?thesis
    by (intro SharedMutexDatabase_inv_same [OF inv t]) (simp_all add: in_call_def current_def)
next
  case (Store i d cs)
  then show ?thesis
    by (intro SharedMutexDatabase_inv_same [OF inv t]) (simp_all add: in_call_def current_def)
next
  case (Release c cs)
  have out: "\<not> in_call th'"
    using Release(4) by (simp add: in_call_def)
  have inn: "in_call (ts ! t)" "current (ts ! t) = c"
    using Release(1,2) by (simp_all add: in_call_def current_def)
  show ?thesis
  proof (cases c)
    case (ReadValue i)
    let ?sm = "(shared_mutex db)\<lparr>readers := readers (shared_mutex db) - {t}\<rparr>"
    have nw: "writer (shared_mutex db) \<noteq> Some t"
      using SharedMutexDatabase_inv_writer [OF inv t] inn ReadValue by simp
    have db': "db' = db\<lparr>shared_mutex := ?sm\<rparr>"
      using Release(3) ReadValue
      by (simp add: SharedMutexDatabase_locking_def shared_mutex_unlock_shared_def)
    have x: "readers ?sm = {}" if "writer ?sm \<noteq> None"
      using SharedMutexDatabase_inv_writer_alone [OF inv] that by simp
    show ?thesis
      unfolding db'
      by (rule SharedMutexDatabase_inv_change [OF inv t]) (simp_all add: nw out x)
  next
    case (UpdateValue i d)
    let ?sm = "(shared_mutex db)\<lparr>writer := None\<rparr>"
    have own: "writer (shared_mutex db) = Some t"
      using SharedMutexDatabase_inv_writer [OF inv t] inn UpdateValue by simp
    then have nr: "readers (shared_mutex db) = {}"
      using SharedMutexDatabase_inv_writer_alone [OF inv] by simp
    have db': "db' = db\<lparr>shared_mutex := ?sm\<rparr>"
      using Release(3) UpdateValue
      by (simp add: SharedMutexDatabase_locking_def shared_mutex_unlock_def)
    show ?thesis
      unfolding db'
      by (rule SharedMutexDatabase_inv_change [OF inv t]) (simp_all add: own nr out)
  qed
qed

lemma SharedMutexDatabase_exclusive:
  assumes "SharedMutexDatabase_inv db ts" and "table_ok K (db, ts)"
  shows "exclusive ts"
  unfolding exclusive_def
proof (intro allI impI)
  fix t u
  assume t: "t < length ts" and u: "u < length ts" and ne: "t \<noteq> u"
    and lt: "is_loaded (ts ! t)" and lu: "is_loaded (ts ! u)"
  from lt lu have "in_call (ts ! t) \<and> is_update (current (ts ! t))"
    "in_call (ts ! u) \<and> is_update (current (ts ! u))"
    using threads_ok [OF assms(2) t] threads_ok [OF assms(2) u]
    by (simp_all add: loaded_in_call loaded_is_update)
  then have "writer (shared_mutex db) = Some t" "writer (shared_mutex db) = Some u"
    using SharedMutexDatabase_inv_writer [OF assms(1) t] SharedMutexDatabase_inv_writer [OF assms(1) u]
    by simp_all
  with ne show "unat (call_index (current (ts ! t))) \<noteq> unat (call_index (current (ts ! u)))"
    by simp
qed

lemma SharedMutexDatabase_live:
  assumes inv: "SharedMutexDatabase_inv db ts" and ok: "table_ok K (db, ts)" and "\<not> joined ts"
  shows "\<exists>t<length ts. thread_step SharedMutexDatabase_locking t (ts ! t) db \<noteq> None"
proof (cases "\<exists>u<length ts. in_call (ts ! u)")
  case True
  then obtain u where u: "u < length ts" "in_call (ts ! u)"
    by blast
  from thread_step_in_call [OF threads_ok [OF ok u(1)] u(2)] u(1) show ?thesis
    by blast
next
  case False
  have w: "writer (shared_mutex db) = None"
  proof (cases "writer (shared_mutex db)")
    case None
    then show ?thesis .
  next
    case (Some u)
    have u: "u < length ts"
      by (rule SharedMutexDatabase_inv_writer_valid [OF inv Some])
    with SharedMutexDatabase_inv_writer [OF inv u] Some have "in_call (ts ! u)"
      by simp
    with False u show ?thesis by blast
  qed
  have r: "readers (shared_mutex db) = {}"
  proof (rule ccontr)
    assume "readers (shared_mutex db) \<noteq> {}"
    then obtain u where m: "u \<in> readers (shared_mutex db)"
      by blast
    have u: "u < length ts"
      by (rule SharedMutexDatabase_inv_reader_valid [OF inv m])
    with SharedMutexDatabase_inv_reader [OF inv u] m have "in_call (ts ! u)"
      by simp
    with False u show False by blast
  qed
  from assms(3) obtain t where t: "t < length ts" "pending (ts ! t) \<noteq> []"
    by (auto dest: not_joined)
  then obtain c cs where p: "pending (ts ! t) = c # cs"
    by (cases "pending (ts ! t)") auto
  from False t have rd: "phase (ts ! t) = Ready"
    by (auto simp: in_call_def)
  from w r have "acquire SharedMutexDatabase_locking t c db \<noteq> None"
    by (simp add: SharedMutexDatabase_locking_def shared_mutex_lock_def
        shared_mutex_lock_shared_def split: call.splits)
  from thread_step_Ready [OF p rd this] t(1) show ?thesis
    by blast
qed

subsection \<open>The split mutexes\<close>

lemma mutex_index:
  "length ms = 5 \<Longrightarrow> unat ((i :: size_t) mod of_nat (length ms)) = unat i mod 5"
  by (simp add: unat_mod_distrib)

lemma SplitMutexDatabase_acquire_data:
  "acquire SplitMutexDatabase_locking t c db = Some db' \<Longrightarrow> data db' = data db"
  by (auto simp: SplitMutexDatabase_locking_def Let_def split: option.splits)

lemma SplitMutexDatabase_release_data:
  "data (release SplitMutexDatabase_locking t c db) = data db"
  by (simp add: SplitMutexDatabase_locking_def Let_def)

lemma SplitMutexDatabase_acquire:
  assumes "length (mutexes db) = 5"
  shows "acquire SplitMutexDatabase_locking t c db =
     (if mutexes db ! (unat (call_index c) mod 5) = None
      then Some (db\<lparr>mutexes := (mutexes db)[unat (call_index c) mod 5 := Some t]\<rparr>)
      else None)"
  by (simp add: SplitMutexDatabase_locking_def Let_def mutex_index [OF assms] mutex_lock_def
      split: option.splits)

lemma SplitMutexDatabase_release:
  assumes "length (mutexes db) = 5"
  shows "release SplitMutexDatabase_locking t c db =
     db\<lparr>mutexes := (mutexes db)[unat (call_index c) mod 5 := None]\<rparr>"
  by (simp add: SplitMutexDatabase_locking_def Let_def mutex_index [OF assms] mutex_unlock_def)

lemma SplitMutexDatabase_invI:
  assumes "length (mutexes db) = 5"
    and "\<And>t k. t < length ts \<Longrightarrow> k < 5 \<Longrightarrow>
           (in_call (ts ! t) \<and> unat (call_index (current (ts ! t))) mod 5 = k)
             = (mutexes db ! k = Some t)"
    and "\<And>k t. k < 5 \<Longrightarrow> mutexes db ! k = Some t \<Longrightarrow> t < length ts"
  shows "SplitMutexDatabase_inv db ts"
  using assms by (simp add: SplitMutexDatabase_inv_def)

lemma SplitMutexDatabase_inv_length:
  "SplitMutexDatabase_inv db ts \<Longrightarrow> length (mutexes db) = 5"
  by (simp add: SplitMutexDatabase_inv_def)

lemma SplitMutexDatabase_inv_owner:
  "SplitMutexDatabase_inv db ts \<Longrightarrow> t < length ts \<Longrightarrow> k < 5 \<Longrightarrow>
   (mutexes db ! k = Some t)
     = (in_call (ts ! t) \<and> unat (call_index (current (ts ! t))) mod 5 = k)"
  by (simp add: SplitMutexDatabase_inv_def)

lemma SplitMutexDatabase_inv_valid:
  "SplitMutexDatabase_inv db ts \<Longrightarrow> k < 5 \<Longrightarrow> mutexes db ! k = Some t \<Longrightarrow> t < length ts"
  by (simp add: SplitMutexDatabase_inv_def)

lemma SplitMutexDatabase_inv_same:
  assumes inv: "SplitMutexDatabase_inv db ts" and t: "t < length ts"
    and "mutexes db' = mutexes db"
    and "in_call th' = in_call (ts ! t)" and "current th' = current (ts ! t)"
  shows "SplitMutexDatabase_inv db' (ts[t := th'])"
proof (rule SplitMutexDatabase_invI)
  show "length (mutexes db') = 5"
    using inv assms(3) by (simp add: SplitMutexDatabase_inv_length)
next
  fix u k
  assume u: "u < length (ts[t := th'])" and k: "k < (5 :: nat)"
  then have u': "u < length ts"
    by simp
  show "(in_call (ts[t := th'] ! u) \<and> unat (call_index (current (ts[t := th'] ! u))) mod 5 = k)
      = (mutexes db' ! k = Some u)"
    using SplitMutexDatabase_inv_owner [OF inv u' k] t assms(3,4,5)
    by (cases "u = t") simp_all
next
  fix k u
  assume "k < (5 :: nat)" and "mutexes db' ! k = Some u"
  with inv assms(3) show "u < length (ts[t := th'])"
    by (simp add: SplitMutexDatabase_inv_valid)
qed

lemma SplitMutexDatabase_inv_step:
  assumes inv: "SplitMutexDatabase_inv db ts" and "table_ok K (db, ts)" and t: "t < length ts"
    and step: "thread_step SplitMutexDatabase_locking t (ts ! t) db = Some (th', db')"
  shows "SplitMutexDatabase_inv db' (ts[t := th'])"
  using step threads_ok [OF assms(2) t]
proof (cases rule: thread_step_cases)
  case (Acquire c cs)
  let ?k = "unat (call_index c) mod 5"
  have len: "length (mutexes db) = 5"
    by (rule SplitMutexDatabase_inv_length [OF inv])
  from Acquire(3) have free: "mutexes db ! ?k = None"
    and db': "db' = db\<lparr>mutexes := (mutexes db)[?k := Some t]\<rparr>"
    by (simp_all add: SplitMutexDatabase_acquire [OF len] split: if_splits)
  have out: "mutexes db ! k \<noteq> Some t" if "k < 5" for k
    using SplitMutexDatabase_inv_owner [OF inv t that] Acquire(2) by (simp add: in_call_def)
  have cur: "in_call th'" "current th' = c"
    using Acquire(1,4) by (simp_all add: in_call_def current_def)
  show ?thesis
  proof (rule SplitMutexDatabase_invI)
    show "length (mutexes db') = 5"
      by (simp add: db' len)
  next
    fix u k
    assume u: "u < length (ts[t := th'])" and k: "k < (5 :: nat)"
    then have u': "u < length ts"
      by simp
    show "(in_call (ts[t := th'] ! u) \<and> unat (call_index (current (ts[t := th'] ! u))) mod 5 = k)
        = (mutexes db' ! k = Some u)"
    proof (cases "u = t")
      case True
      with t cur out [OF k] k len show ?thesis
        by (simp add: db' nth_list_update)
    next
      case False
      with SplitMutexDatabase_inv_owner [OF inv u' k] free k len show ?thesis
        by (auto simp: db' nth_list_update)
    qed
  next
    fix k u
    assume k: "k < (5 :: nat)" and "mutexes db' ! k = Some u"
    with len t have "u = t \<or> mutexes db ! k = Some u"
      by (auto simp: db' nth_list_update split: if_splits)
    with t SplitMutexDatabase_inv_valid [OF inv k] show "u < length (ts[t := th'])"
      by auto
  qed
next
  case (Read i cs)
  then show ?thesis
    by (intro SplitMutexDatabase_inv_same [OF inv t]) (simp_all add: in_call_def current_def)
next
  case (Load i d cs)
  then show ?thesis
    by (intro SplitMutexDatabase_inv_same [OF inv t]) (simp_all add: in_call_def current_def)
next
  case (Store i d cs)
  then show ?thesis
    by (intro SplitMutexDatabase_inv_same [OF inv t]) (simp_all add: in_call_def current_def)
next
  case (Release c cs)
  let ?k = "unat (call_index c) mod 5"
  have len: "length (mutexes db) = 5"
    by (rule SplitMutexDatabase_inv_length [OF inv])
  have db': "db' = db\<lparr>mutexes := (mutexes db)[?k := None]\<rparr>"
    using Release(3) by (simp add: SplitMutexDatabase_release [OF len])
  have out: "\<not> in_call th'"
    using Release(4) by (simp add: in_call_def)
  have inn: "in_call (ts ! t)" "current (ts ! t) = c"
    using Release(1,2) by (simp_all add: in_call_def current_def)
  have own: "(mutexes db ! k = Some t) = (?k = k)" if "k < 5" for k
    using SplitMutexDatabase_inv_owner [OF inv t that] inn by simp
  show ?thesis
  proof (rule SplitMutexDatabase_invI)
    show "length (mutexes db') = 5"
      by (simp add: db' len)
  next
    fix u k
    assume u: "u < length (ts[t := th'])" and k: "k < (5 :: nat)"
    then have u': "u < length ts"
      by simp
    show "(in_call (ts[t := th'] ! u) \<and> unat (call_index (current (ts[t := th'] ! u))) mod 5 = k)
        = (mutexes db' ! k = Some u)"
    proof (cases "u = t")
      case True
      with t out own [OF k] k len show ?thesis
        by (auto simp: db' nth_list_update)
    next
      case False
      have "mutexes db ! ?k = Some t"
        using own [of ?k] by simp
      with False have "mutexes db ! ?k \<noteq> Some u"
        by simp
      with False SplitMutexDatabase_inv_owner [OF inv u' k] k len show ?thesis
        by (auto simp: db' nth_list_update)
    qed
  next
    fix k u
    assume k: "k < (5 :: nat)" and "mutexes db' ! k = Some u"
    with len have "mutexes db ! k = Some u"
      by (auto simp: db' nth_list_update split: if_splits)
    with SplitMutexDatabase_inv_valid [OF inv k] show "u < length (ts[t := th'])"
      by simp
  qed
qed

lemma SplitMutexDatabase_exclusive:
  assumes "SplitMutexDatabase_inv db ts"
  shows "exclusive ts"
  unfolding exclusive_def
proof (intro allI impI notI)
  fix t u
  assume t: "t < length ts" and u: "u < length ts" and ne: "t \<noteq> u"
    and lt: "is_loaded (ts ! t)" and lu: "is_loaded (ts ! u)"
    and eq: "unat (call_index (current (ts ! t))) = unat (call_index (current (ts ! u)))"
  let ?k = "unat (call_index (current (ts ! t))) mod 5"
  have k: "?k < 5"
    by simp
  have "mutexes db ! ?k = Some t"
    using SplitMutexDatabase_inv_owner [OF assms t k] lt by (simp add: loaded_in_call)
  moreover have "mutexes db ! ?k = Some u"
    using SplitMutexDatabase_inv_owner [OF assms u k] lu eq by (simp add: loaded_in_call)
  ultimately show False
    using ne by simp
qed

lemma SplitMutexDatabase_live:
  assumes inv: "SplitMutexDatabase_inv db ts" and ok: "table_ok K (db, ts)" and "\<not> joined ts"
  shows "\<exists>t<length ts. thread_step SplitMutexDatabase_locking t (ts ! t) db \<noteq> None"
proof (cases "\<exists>u<length ts. in_call (ts ! u)")
  case True
  then obtain u where u: "u < length ts" "in_call (ts ! u)"
    by blast
  from thread_step_in_call [OF threads_ok [OF ok u(1)] u(2)] u(1) show ?thesis
    by blast
next
  case False
  have len: "length (mutexes db) = 5"
    by (rule SplitMutexDatabase_inv_length [OF inv])
  have free: "mutexes db ! k = None" if "k < 5" for k
  proof (cases "mutexes db ! k")
    case None
    then show ?thesis .
  next
    case (Some u)
    have u: "u < length ts"
      by (rule SplitMutexDatabase_inv_valid [OF inv that Some])
    with SplitMutexDatabase_inv_owner [OF inv u that] Some have "in_call (ts ! u)"
      by simp
    with False u show ?thesis by blast
  qed
  from assms(3) obtain t where t: "t < length ts" "pending (ts ! t) \<noteq> []"
    by (auto dest: not_joined)
  then obtain c cs where p: "pending (ts ! t) = c # cs"
    by (cases "pending (ts ! t)") auto
  from False t have rd: "phase (ts ! t) = Ready"
    by (auto simp: in_call_def)
  have "acquire SplitMutexDatabase_locking t c db \<noteq> None"
    by (simp add: SplitMutexDatabase_acquire [OF len] free)
  from thread_step_Ready [OF p rd this] t(1) show ?thesis
    by blast
qed

section \<open>The zero-sum property of the workload\<close>

subsection \<open>Every worker adds zero to every cell\<close>

lemma sum_list_single:
  "sum_list (map (\<lambda>k. if k = j then v else 0) [0..<n]) = (if j < n then v else (0 :: int64_t))"
  by (induction n) auto

lemma sum_list_indices:
  assumes "j < 10"
  shows "sum_list (map (\<lambda>i. if unat i = j then v else 0) [0, 1, 2, 3, 4, 5, 6, 7, 8, 9 :: size_t])
       = (v :: int64_t)"
proof -
  have "map (\<lambda>i :: size_t. if unat i = j then v else 0) (map of_nat [0..<10])
      = map (\<lambda>k. if k = j then v else 0) [0..<10]"
    by (simp add: unat_of_nat take_bit_nat_eq_self)
  then have "sum_list (map (\<lambda>i :: size_t. if unat i = j then v else 0) (map of_nat [0..<10]))
      = sum_list (map (\<lambda>k. if k = j then v else 0) [0..<10])"
    by (rule arg_cong)
  with assms show ?thesis
    by (simp only: indices_list sum_list_single if_True)
qed

lemma sum_list_permuted:
  fixes f :: "size_t \<Rightarrow> int64_t"
  shows "mset xs = mset ys \<Longrightarrow> sum_list (map f xs) = sum_list (map f ys)"
proof -
  assume "mset xs = mset ys"
  then have "sum_mset (image_mset f (mset xs)) = sum_mset (image_mset f (mset ys))"
    by simp
  then show ?thesis
    by (simp only: mset_map [symmetric] sum_mset_sum_list)
qed

lemma net_updateAllInRandomOrder:
  assumes "length (fst env) = DATABASE_SIZE" and "j < 10"
  shows "net j (updateAllInRandomOrder v env) = v"
proof -
  let ?f = "\<lambda>i :: size_t. if unat i = j then v else 0"
  have "net j (updateAllInRandomOrder v env)
      = sum_list (map ?f (getIndicesInShuffledOrder (fst env) (snd env)))"
    by (simp add: net_def updateAllInRandomOrder_def comp_def)
  also have "\<dots> = sum_list (map ?f [0, 1, 2, 3, 4, 5, 6, 7, 8, 9])"
    by (rule sum_list_permuted) (rule getIndicesInShuffledOrder_mset [OF assms(1)])
  also have "\<dots> = v"
    by (rule sum_list_indices [OF assms(2)])
  finally show ?thesis .
qed

lemma net_readAllInRandomOrder: "net j (readAllInRandomOrder env) = 0"
  by (simp add: net_def readAllInRandomOrder_def comp_def)

lemma net_updater:
  assumes "\<And>c. length (fst (env c)) = DATABASE_SIZE" and "j < 10"
  shows "net j (updater env) = 0"
  by (simp add: updater_def net_append net_updateAllInRandomOrder [OF assms(1) assms(2)])

lemma net_reader: "net j (reader env) = 0"
  by (simp add: reader_def net_readAllInRandomOrder)

lemma call_index_updateAllInRandomOrder:
  assumes "length (fst env) = DATABASE_SIZE" and "c \<in> set (updateAllInRandomOrder v env)"
  shows "unat (call_index c) < 10"
proof -
  from assms(2) obtain i where "i \<in> set (getIndicesInShuffledOrder (fst env) (snd env))"
    and c: "c = UpdateValue i v"
    by (auto simp: updateAllInRandomOrder_def)
  with getIndicesInShuffledOrder_set [OF assms(1)] have "i < 10"
    by simp
  with c show ?thesis
    by (simp add: unat_less_10)
qed

lemma call_index_readAllInRandomOrder:
  assumes "length (fst env) = DATABASE_SIZE" and "c \<in> set (readAllInRandomOrder env)"
  shows "unat (call_index c) < 10"
proof -
  from assms(2) obtain i where "i \<in> set (getIndicesInShuffledOrder (fst env) (snd env))"
    and c: "c = ReadValue i"
    by (auto simp: readAllInRandomOrder_def)
  with getIndicesInShuffledOrder_set [OF assms(1)] have "i < 10"
    by simp
  with c show ?thesis
    by (simp add: unat_less_10)
qed

lemma call_index_updater:
  assumes "\<And>c. length (fst (env c)) = DATABASE_SIZE" and "c \<in> set (updater env)"
  shows "unat (call_index c) < 10"
  using assms(2)
  by (auto simp: updater_def dest: call_index_updateAllInRandomOrder [OF assms(1)])

lemma call_index_reader:
  assumes "\<And>c. length (fst (env c)) = DATABASE_SIZE" and "c \<in> set (reader env)"
  shows "unat (call_index c) < 10"
  using assms(2)
  by (auto simp: reader_def dest: call_index_readAllInRandomOrder [OF assms(1)])

subsection \<open>The threads of testDatabase at the start\<close>

lemma owed_start_thread: "owed j (start_thread cs) = net j cs"
  by (simp add: owed_def start_thread_def)

lemma thread_ok_start_thread:
  "(\<And>c. c \<in> set cs \<Longrightarrow> unat (call_index c) < length cells) \<Longrightarrow>
   thread_ok cells (start_thread cs)"
  by (simp add: thread_ok_def start_thread_def list_all_iff)

lemma testDatabase_threads_cases:
  assumes "th \<in> set (testDatabase_threads env)"
  obtains t where "th = start_thread (updater (env t))"
  | t where "th = start_thread (reader (env t))"
  using assms by (auto simp: testDatabase_threads_def simp del: upt_rec_numeral)

lemma testDatabase_threads_Ready:
  "t < length (testDatabase_threads env) \<Longrightarrow> \<not> in_call (testDatabase_threads env ! t)"
proof -
  assume "t < length (testDatabase_threads env)"
  then have "testDatabase_threads env ! t \<in> set (testDatabase_threads env)"
    by (rule nth_mem)
  then show ?thesis
    by (cases rule: testDatabase_threads_cases) (simp_all add: in_call_def start_thread_def)
qed

lemma table_ok_start:
  fixes db :: "'a Database_scheme"
  assumes env: "\<And>t c. length (fst (env t c)) = DATABASE_SIZE"
    and db: "data db = replicate DATABASE_SIZE 0"
  shows "table_ok (\<lambda>j. 0) (db, testDatabase_threads env)"
proof -
  have len: "length (data db) = 10"
    by (simp add: db DATABASE_SIZE_def)
  have ok: "thread_ok (data db) th" if "th \<in> set (testDatabase_threads env)" for th
    using that
  proof (cases rule: testDatabase_threads_cases)
    case (1 t)
    show ?thesis
      unfolding 1 len
      by (rule thread_ok_start_thread) (simp add: len call_index_updater [OF env])
  next
    case (2 t)
    show ?thesis
      unfolding 2
      by (rule thread_ok_start_thread) (simp add: len call_index_reader [OF env])
  qed
  have sum: "sum_list (map (owed j) (testDatabase_threads env)) = 0" if j: "j < 10" for j
  proof (rule sum_list_zero)
    fix th
    assume "th \<in> set (testDatabase_threads env)"
    then show "owed j th = 0"
    proof (cases rule: testDatabase_threads_cases)
      case (1 t)
      then show ?thesis
        by (simp add: owed_start_thread net_updater [OF env j])
    next
      case (2 t)
      then show ?thesis
        by (simp add: owed_start_thread net_reader)
    qed
  qed
  have cells: "data db ! j + sum_list (map (owed j) (testDatabase_threads env)) = 0"
    if j: "j < 10" for j
    using j by (simp add: sum [OF j] db DATABASE_SIZE_def)
  from len ok cells show ?thesis
    by (simp add: table_ok_def list_all_iff DATABASE_SIZE_def)
qed

lemma table_ok_zero:
  assumes "table_ok (\<lambda>j. 0) (db, ts)" and "joined ts"
  shows "fst (isAllZero db)"
proof -
  from assms(1) have len: "length (data db) = DATABASE_SIZE"
    by (simp add: table_ok_def)
  have "data db ! j = 0" if "j < DATABASE_SIZE" for j
    by (rule table_ok_joined [OF assms that])
  with len show ?thesis
    by (simp add: isAllZero_def list_all_length)
qed

lemma table_ok_not_thrown: "table_ok K (db, ts) \<Longrightarrow> list_all (\<lambda>th. \<not> thrown th) ts"
  by (simp add: table_ok_def list_all_iff thread_ok_def)

subsection \<open>Each synchronized table keeps its invariant\<close>

lemma SingleMutexDatabase_keeps:
  assumes "SingleMutexDatabase_inv db ts \<and> table_ok K (db, ts)" and "t < length ts"
    and "thread_step SingleMutexDatabase_locking t (ts ! t) db = Some (th', db')"
  shows "SingleMutexDatabase_inv db' (ts[t := th']) \<and> table_ok K (db', ts[t := th'])"
proof
  from assms show "SingleMutexDatabase_inv db' (ts[t := th'])"
    by (blast intro: SingleMutexDatabase_inv_step)
  from assms(1) have "exclusive ts"
    by (blast intro: SingleMutexDatabase_exclusive)
  with assms show "table_ok K (db', ts[t := th'])"
    by (blast intro: table_ok_step SingleMutexDatabase_acquire_data
        SingleMutexDatabase_release_data)
qed

lemma SharedMutexDatabase_keeps:
  assumes "SharedMutexDatabase_inv db ts \<and> table_ok K (db, ts)" and "t < length ts"
    and "thread_step SharedMutexDatabase_locking t (ts ! t) db = Some (th', db')"
  shows "SharedMutexDatabase_inv db' (ts[t := th']) \<and> table_ok K (db', ts[t := th'])"
proof
  from assms show "SharedMutexDatabase_inv db' (ts[t := th'])"
    by (blast intro: SharedMutexDatabase_inv_step)
  from assms(1) have "exclusive ts"
    by (blast intro: SharedMutexDatabase_exclusive)
  with assms show "table_ok K (db', ts[t := th'])"
    by (blast intro: table_ok_step SharedMutexDatabase_acquire_data
        SharedMutexDatabase_release_data)
qed

lemma SplitMutexDatabase_keeps:
  assumes "SplitMutexDatabase_inv db ts \<and> table_ok K (db, ts)" and "t < length ts"
    and "thread_step SplitMutexDatabase_locking t (ts ! t) db = Some (th', db')"
  shows "SplitMutexDatabase_inv db' (ts[t := th']) \<and> table_ok K (db', ts[t := th'])"
proof
  from assms show "SplitMutexDatabase_inv db' (ts[t := th'])"
    by (blast intro: SplitMutexDatabase_inv_step)
  from assms(1) have "exclusive ts"
    by (blast intro: SplitMutexDatabase_exclusive)
  with assms show "table_ok K (db', ts[t := th'])"
    by (blast intro: table_ok_step SplitMutexDatabase_acquire_data
        SplitMutexDatabase_release_data)
qed

lemma SingleMutexDatabase_inv_start:
  "SingleMutexDatabase_inv SingleMutexDatabase_init (testDatabase_threads env)"
  by (simp add: SingleMutexDatabase_inv_def SingleMutexDatabase_init_def
      testDatabase_threads_Ready)

lemma SharedMutexDatabase_inv_start:
  "SharedMutexDatabase_inv SharedMutexDatabase_init (testDatabase_threads env)"
  by (simp add: SharedMutexDatabase_inv_def SharedMutexDatabase_init_def
      testDatabase_threads_Ready)

lemma mutexes_init: "mutexes SplitMutexDatabase_init = [None, None, None, None, None]"
  by code_simp

lemma SplitMutexDatabase_inv_start:
  "SplitMutexDatabase_inv SplitMutexDatabase_init (testDatabase_threads env)"
proof (rule SplitMutexDatabase_invI)
  show "length (mutexes SplitMutexDatabase_init) = 5"
    by (simp add: mutexes_init)
next
  fix t k
  assume "t < length (testDatabase_threads env)" and "k < (5 :: nat)"
  then show "(in_call (testDatabase_threads env ! t)
        \<and> unat (call_index (current (testDatabase_threads env ! t))) mod 5 = k)
      = (mutexes SplitMutexDatabase_init ! k = Some t)"
    by (simp add: testDatabase_threads_Ready mutexes_init nth_Cons' )
next
  fix k t
  assume "k < (5 :: nat)" and "mutexes SplitMutexDatabase_init ! k = Some t"
  then show "t < length (testDatabase_threads env)"
    by (simp add: mutexes_init nth_Cons' split: if_splits)
qed

subsection \<open>The unlocked table loses updates, the locked ones refuse the same schedule\<close>

text \<open>
  Two threads add 25, -40 and 15 to cell 3 of the unlocked table. Thread 0 reads the cell,
  thread 1 then makes its whole first call, and thread 0 writes its sum back over it. Both
  threads run to their end, and the cell holds -25. Under the single mutex thread 1 cannot
  take its first step there, and the schedule is no run.
\<close>

lemma Database_lost_update:
  "sys_run Database_locking
     [0, 0, 1, 1, 1, 1, 0, 0, 0, 0, 0, 0, 0, 0, 0, 0, 1, 1, 1, 1, 1, 1, 1, 1]
     (Database_init,
      [start_thread [UpdateValue 3 25, UpdateValue 3 (- 40), UpdateValue 3 15],
       start_thread [UpdateValue 3 25, UpdateValue 3 (- 40), UpdateValue 3 15]])
   = Some (\<lparr>data = [0, 0, 0, - 25, 0, 0, 0, 0, 0, 0]\<rparr>, [start_thread [], start_thread []])"
  by code_simp

lemma SingleMutexDatabase_refuses:
  "sys_run SingleMutexDatabase_locking
     [0, 0, 1, 1, 1, 1, 0, 0, 0, 0, 0, 0, 0, 0, 0, 0, 1, 1, 1, 1, 1, 1, 1, 1]
     (SingleMutexDatabase_init,
      [start_thread [UpdateValue 3 25, UpdateValue 3 (- 40), UpdateValue 3 15],
       start_thread [UpdateValue 3 25, UpdateValue 3 (- 40), UpdateValue 3 15]])
   = None"
  by code_simp

text \<open>An interleaving that the split mutexes admit: the threads work on cells 3 and 4.\<close>

lemma SplitMutexDatabase_interleaved:
  "sys_run SplitMutexDatabase_locking
     [0, 1, 0, 1, 0, 1, 0, 1, 0, 0, 0, 0]
     (SplitMutexDatabase_init,
      [start_thread [UpdateValue 3 25, UpdateValue 3 (- 25)],
       start_thread [UpdateValue 4 7]])
   = Some (\<lparr>data = [0, 0, 0, 0, 7, 0, 0, 0, 0, 0], mutexes = [None, None, None, None, None]\<rparr>,
           [start_thread [], start_thread []])"
  by code_simp

subsection \<open>Every run of the threads of testDatabase ends in the zero table\<close>

text \<open>
  C1. Start the 100 updater threads and the 1000 reader threads of one \<open>testDatabase\<close> on a
  freshly constructed table of one of the three synchronized classes, whatever seeds the
  threads see, and let them take their steps in any order that the lock of the class
  admits; a thread may be interrupted anywhere, also between the read and the write of an
  addition. Then no thread has thrown; from the state reached the threads can always be run
  to the end, so that the join returns; and whenever all threads are done, \<open>isAllZero\<close>
  holds.
\<close>

theorem C1_zero_sum:
  assumes "\<forall>t c. length (fst (env t c)) = DATABASE_SIZE"
  shows "(sys_run SingleMutexDatabase_locking sched1
            (SingleMutexDatabase_init, testDatabase_threads env) = Some (db1, ts1) \<longrightarrow>
          list_all (\<lambda>th. \<not> thrown th) ts1
          \<and> (joined ts1 \<longrightarrow> fst (isAllZero db1))
          \<and> (\<exists>sched db ts. sys_run SingleMutexDatabase_locking sched (db1, ts1) = Some (db, ts)
                \<and> joined ts))
     \<and> (sys_run SharedMutexDatabase_locking sched2
            (SharedMutexDatabase_init, testDatabase_threads env) = Some (db2, ts2) \<longrightarrow>
          list_all (\<lambda>th. \<not> thrown th) ts2
          \<and> (joined ts2 \<longrightarrow> fst (isAllZero db2))
          \<and> (\<exists>sched db ts. sys_run SharedMutexDatabase_locking sched (db2, ts2) = Some (db, ts)
                \<and> joined ts))
     \<and> (sys_run SplitMutexDatabase_locking sched3
            (SplitMutexDatabase_init, testDatabase_threads env) = Some (db3, ts3) \<longrightarrow>
          list_all (\<lambda>th. \<not> thrown th) ts3
          \<and> (joined ts3 \<longrightarrow> fst (isAllZero db3))
          \<and> (\<exists>sched db ts. sys_run SplitMutexDatabase_locking sched (db3, ts3) = Some (db, ts)
                \<and> joined ts))"
proof -
  from assms have env: "\<And>t c. length (fst (env t c)) = DATABASE_SIZE"
    by simp
  let ?ts = "testDatabase_threads env"
  let ?Z = "\<lambda>j :: nat. 0 :: int64_t"
  have single: "list_all (\<lambda>th. \<not> thrown th) ts1 \<and> (joined ts1 \<longrightarrow> fst (isAllZero db1))
      \<and> (\<exists>sched db ts. sys_run SingleMutexDatabase_locking sched (db1, ts1) = Some (db, ts)
            \<and> joined ts)"
    if run: "sys_run SingleMutexDatabase_locking sched1 (SingleMutexDatabase_init, ?ts)
      = Some (db1, ts1)"
  proof -
    let ?I = "\<lambda>db ts. SingleMutexDatabase_inv db ts \<and> table_ok ?Z (db, ts)"
    have "table_ok ?Z (SingleMutexDatabase_init, ?ts)"
      by (rule table_ok_start [OF env]) (simp add: SingleMutexDatabase_init_def)
    then have i0: "?I SingleMutexDatabase_init ?ts"
      by (simp add: SingleMutexDatabase_inv_start)
    have pres: "?I db' (ts[t := th'])"
      if "?I db ts" and "t < length ts"
        and "thread_step SingleMutexDatabase_locking t (ts ! t) db = Some (th', db')"
      for db ts t th' db'
      using that by (rule SingleMutexDatabase_keeps)
    have live: "\<exists>t<length ts. thread_step SingleMutexDatabase_locking t (ts ! t) db \<noteq> None"
      if "?I db ts" and "\<not> joined ts" for db ts
      using that by (blast intro: SingleMutexDatabase_live)
    have i: "?I db1 ts1"
      by (rule sys_run_invariant [where I = ?I, OF pres i0 run])
    have "\<exists>sched db ts. sys_run SingleMutexDatabase_locking sched (db1, ts1) = Some (db, ts)
        \<and> joined ts"
      by (rule sys_run_complete [where I = ?I, OF pres live i])
    with i show ?thesis
      by (blast intro: table_ok_zero table_ok_not_thrown)
  qed
  have shared: "list_all (\<lambda>th. \<not> thrown th) ts2 \<and> (joined ts2 \<longrightarrow> fst (isAllZero db2))
      \<and> (\<exists>sched db ts. sys_run SharedMutexDatabase_locking sched (db2, ts2) = Some (db, ts)
            \<and> joined ts)"
    if run: "sys_run SharedMutexDatabase_locking sched2 (SharedMutexDatabase_init, ?ts)
      = Some (db2, ts2)"
  proof -
    let ?I = "\<lambda>db ts. SharedMutexDatabase_inv db ts \<and> table_ok ?Z (db, ts)"
    have "table_ok ?Z (SharedMutexDatabase_init, ?ts)"
      by (rule table_ok_start [OF env]) (simp add: SharedMutexDatabase_init_def)
    then have i0: "?I SharedMutexDatabase_init ?ts"
      by (simp add: SharedMutexDatabase_inv_start)
    have pres: "?I db' (ts[t := th'])"
      if "?I db ts" and "t < length ts"
        and "thread_step SharedMutexDatabase_locking t (ts ! t) db = Some (th', db')"
      for db ts t th' db'
      using that by (rule SharedMutexDatabase_keeps)
    have live: "\<exists>t<length ts. thread_step SharedMutexDatabase_locking t (ts ! t) db \<noteq> None"
      if "?I db ts" and "\<not> joined ts" for db ts
      using that by (blast intro: SharedMutexDatabase_live)
    have i: "?I db2 ts2"
      by (rule sys_run_invariant [where I = ?I, OF pres i0 run])
    have "\<exists>sched db ts. sys_run SharedMutexDatabase_locking sched (db2, ts2) = Some (db, ts)
        \<and> joined ts"
      by (rule sys_run_complete [where I = ?I, OF pres live i])
    with i show ?thesis
      by (blast intro: table_ok_zero table_ok_not_thrown)
  qed
  have split: "list_all (\<lambda>th. \<not> thrown th) ts3 \<and> (joined ts3 \<longrightarrow> fst (isAllZero db3))
      \<and> (\<exists>sched db ts. sys_run SplitMutexDatabase_locking sched (db3, ts3) = Some (db, ts)
            \<and> joined ts)"
    if run: "sys_run SplitMutexDatabase_locking sched3 (SplitMutexDatabase_init, ?ts)
      = Some (db3, ts3)"
  proof -
    let ?I = "\<lambda>db ts. SplitMutexDatabase_inv db ts \<and> table_ok ?Z (db, ts)"
    have "table_ok ?Z (SplitMutexDatabase_init, ?ts)"
      by (rule table_ok_start [OF env]) (simp add: SplitMutexDatabase_init_def)
    then have i0: "?I SplitMutexDatabase_init ?ts"
      by (simp add: SplitMutexDatabase_inv_start)
    have pres: "?I db' (ts[t := th'])"
      if "?I db ts" and "t < length ts"
        and "thread_step SplitMutexDatabase_locking t (ts ! t) db = Some (th', db')"
      for db ts t th' db'
      using that by (rule SplitMutexDatabase_keeps)
    have live: "\<exists>t<length ts. thread_step SplitMutexDatabase_locking t (ts ! t) db \<noteq> None"
      if "?I db ts" and "\<not> joined ts" for db ts
      using that by (blast intro: SplitMutexDatabase_live)
    have i: "?I db3 ts3"
      by (rule sys_run_invariant [where I = ?I, OF pres i0 run])
    have "\<exists>sched db ts. sys_run SplitMutexDatabase_locking sched (db3, ts3) = Some (db, ts)
        \<and> joined ts"
      by (rule sys_run_complete [where I = ?I, OF pres live i])
    with i show ?thesis
      by (blast intro: table_ok_zero table_ok_not_thrown)
  qed
  from single shared split show ?thesis
    by blast
qed

theorem C1_zero_sum_witness:
  "(\<forall>t c. length (fst ((\<lambda>t c. ([0, 0, 0, 0, 0, 0, 0, 0, 0, 0 :: size_t],
                                     of_nat t + of_nat c :: cint)) t c))
       = DATABASE_SIZE)
   \<and> sys_run SingleMutexDatabase_locking []
         (SingleMutexDatabase_init,
          testDatabase_threads (\<lambda>t c. ([0, 0, 0, 0, 0, 0, 0, 0, 0, 0], of_nat t + of_nat c)))
       = Some (SingleMutexDatabase_init,
          testDatabase_threads (\<lambda>t c. ([0, 0, 0, 0, 0, 0, 0, 0, 0, 0], of_nat t + of_nat c)))
   \<and> (\<exists>sched db ts.
         sys_run SingleMutexDatabase_locking sched
           (SingleMutexDatabase_init,
            testDatabase_threads (\<lambda>t c. ([0, 0, 0, 0, 0, 0, 0, 0, 0, 0], of_nat t + of_nat c)))
         = Some (db, ts)
         \<and> joined ts \<and> fst (isAllZero db))
   \<and> (\<exists>sched db ts.
         sys_run SharedMutexDatabase_locking sched
           (SharedMutexDatabase_init,
            testDatabase_threads (\<lambda>t c. ([0, 0, 0, 0, 0, 0, 0, 0, 0, 0], of_nat t + of_nat c)))
         = Some (db, ts)
         \<and> joined ts \<and> fst (isAllZero db))
   \<and> (\<exists>sched db ts.
         sys_run SplitMutexDatabase_locking sched
           (SplitMutexDatabase_init,
            testDatabase_threads (\<lambda>t c. ([0, 0, 0, 0, 0, 0, 0, 0, 0, 0], of_nat t + of_nat c)))
         = Some (db, ts)
         \<and> joined ts \<and> fst (isAllZero db))"
proof -
  let ?env = "\<lambda>(t :: nat) (c :: nat). ([0, 0, 0, 0, 0, 0, 0, 0, 0, 0 :: size_t], of_nat t + of_nat c :: cint)"
  let ?ts = "testDatabase_threads ?env"
  have h: "\<forall>t c. length (fst (?env t c)) = DATABASE_SIZE"
    by (simp add: DATABASE_SIZE_def)
  have r1: "sys_run SingleMutexDatabase_locking [] (SingleMutexDatabase_init, ?ts)
      = Some (SingleMutexDatabase_init, ?ts)"
    and r2: "sys_run SharedMutexDatabase_locking [] (SharedMutexDatabase_init, ?ts)
      = Some (SharedMutexDatabase_init, ?ts)"
    and r3: "sys_run SplitMutexDatabase_locking [] (SplitMutexDatabase_init, ?ts)
      = Some (SplitMutexDatabase_init, ?ts)"
    by simp_all
  note start = C1_zero_sum [OF h, where ?sched1.0 = "[]" and ?db1.0 = SingleMutexDatabase_init
      and ?ts1.0 = ?ts and ?sched2.0 = "[]" and ?db2.0 = SharedMutexDatabase_init
      and ?ts2.0 = ?ts and ?sched3.0 = "[]" and ?db3.0 = SplitMutexDatabase_init
      and ?ts3.0 = ?ts]
  from start r1 obtain s1 d1 t1
    where e1: "sys_run SingleMutexDatabase_locking s1 (SingleMutexDatabase_init, ?ts) = Some (d1, t1)"
      and j1: "joined t1"
    by blast
  from start r2 obtain s2 d2 t2
    where e2: "sys_run SharedMutexDatabase_locking s2 (SharedMutexDatabase_init, ?ts) = Some (d2, t2)"
      and j2: "joined t2"
    by blast
  from start r3 obtain s3 d3 t3
    where e3: "sys_run SplitMutexDatabase_locking s3 (SplitMutexDatabase_init, ?ts) = Some (d3, t3)"
      and j3: "joined t3"
    by blast
  note fin = C1_zero_sum [OF h, where ?sched1.0 = s1 and ?db1.0 = d1 and ?ts1.0 = t1
      and ?sched2.0 = s2 and ?db2.0 = d2 and ?ts2.0 = t2
      and ?sched3.0 = s3 and ?db3.0 = d3 and ?ts3.0 = t3]
  from fin e1 j1 have z1: "fst (isAllZero d1)"
    by blast
  from fin e2 j2 have z2: "fst (isAllZero d2)"
    by blast
  from fin e3 j3 have z3: "fst (isAllZero d3)"
    by blast
  from h r1 e1 j1 z1 e2 j2 z2 e3 j3 z3 show ?thesis
    by blast
qed

section \<open>Properties of the sharded table\<close>

lemma wf_SplitMutexDatabase_init: "wf_SplitMutexDatabase SplitMutexDatabase_init"
  by (simp add: wf_SplitMutexDatabase_def SplitMutexDatabase_init_def)

lemma wf_SplitMutexDatabase_length:
  "wf_SplitMutexDatabase db \<Longrightarrow> length (mutexes db) = 5"
  by (simp add: wf_SplitMutexDatabase_def DATABASE_SIZE_def)

lemma thread_step_body_mutexes:
  assumes "thread_step L t th db = Some (th', db')" and "phase th = Locked \<or> phase th = Loaded v"
  shows "mutexes db' = mutexes db"
  using assms
  by (auto simp: thread_step_def readValue_def
      split: list.splits call.splits sum.splits prod.splits)

text \<open>
  C8. The sharded table is constructed with five mutexes. A thread that enters
  \<open>readValue(i)\<close> or \<open>updateValue(i, delta)\<close> takes mutex number \<open>i mod 5\<close> and no other: if
  that mutex is free the thread becomes its owner and every other mutex stays as it is, and
  if it is owned the thread waits. The steps of the inherited operation leave the mutexes
  alone, so the thread owns the mutex while it accesses the cell, and the last step of the
  call frees mutex \<open>i mod 5\<close> again. So once a thread has entered a call on cell \<open>i\<close> of an
  idle table, another thread entering a call on cell \<open>j\<close> has to wait if and only if
  \<open>i mod 5 = j mod 5\<close>.
\<close>

theorem C8_sharded_locks:
  assumes "wf_SplitMutexDatabase db"
  shows "length (mutexes SplitMutexDatabase_init) = 5
     \<and> thread_step SplitMutexDatabase_locking t \<lparr>pending = c # cs, phase = Ready, thrown = x\<rparr> db
         = (if mutexes db ! (unat (call_index c) mod 5) = None
            then Some (\<lparr>pending = c # cs, phase = Locked, thrown = x\<rparr>,
                       db\<lparr>mutexes := (mutexes db)[unat (call_index c) mod 5 := Some t]\<rparr>)
            else None)
     \<and> (\<forall>th' db'.
          thread_step SplitMutexDatabase_locking t \<lparr>pending = c # cs, phase = Locked, thrown = x\<rparr> db
            = Some (th', db') \<longrightarrow> mutexes db' = mutexes db)
     \<and> (\<forall>th' db'.
          thread_step SplitMutexDatabase_locking t \<lparr>pending = c # cs, phase = Loaded v, thrown = x\<rparr> db
            = Some (th', db') \<longrightarrow> mutexes db' = mutexes db)
     \<and> thread_step SplitMutexDatabase_locking t \<lparr>pending = c # cs, phase = Unlocking, thrown = x\<rparr> db
         = Some (\<lparr>pending = (if x then [] else cs), phase = Ready, thrown = x\<rparr>,
                 db\<lparr>mutexes := (mutexes db)[unat (call_index c) mod 5 := None]\<rparr>)
     \<and> (list_all (\<lambda>m. m = None) (mutexes db) \<longrightarrow>
          (\<exists>th1 db1.
             thread_step SplitMutexDatabase_locking t \<lparr>pending = c # cs, phase = Ready, thrown = x\<rparr> db
               = Some (th1, db1)
             \<and> mutexes db1 ! (unat (call_index c) mod 5) = Some t
             \<and> ((thread_step SplitMutexDatabase_locking u
                    \<lparr>pending = c' # cs', phase = Ready, thrown = x'\<rparr> db1 = None)
                  = (unat (call_index c) mod 5 = unat (call_index c') mod 5))))"
proof -
  let ?k = "unat (call_index c) mod 5"
  let ?th = "\<lambda>p. \<lparr>pending = c # cs, phase = p, thrown = x\<rparr>"
  have len: "length (mutexes db) = 5"
    by (rule wf_SplitMutexDatabase_length [OF assms])
  have n: "length (mutexes SplitMutexDatabase_init) = 5"
    by (rule wf_SplitMutexDatabase_length [OF wf_SplitMutexDatabase_init])
  have a: "thread_step SplitMutexDatabase_locking t (?th Ready) db
      = (if mutexes db ! ?k = None
         then Some (?th Locked, db\<lparr>mutexes := (mutexes db)[?k := Some t]\<rparr>)
         else None)"
    by (simp add: thread_step_def SplitMutexDatabase_acquire [OF len])
  have b1: "mutexes db' = mutexes db"
    if "thread_step SplitMutexDatabase_locking t (?th Locked) db = Some (th', db')" for th' db'
    using that by (rule thread_step_body_mutexes) simp
  have b2: "mutexes db' = mutexes db"
    if "thread_step SplitMutexDatabase_locking t (?th (Loaded v)) db = Some (th', db')"
    for th' db'
    using that by (rule thread_step_body_mutexes [where v = v]) simp
  have r: "thread_step SplitMutexDatabase_locking t (?th Unlocking) db
      = Some (\<lparr>pending = (if x then [] else cs), phase = Ready, thrown = x\<rparr>,
              db\<lparr>mutexes := (mutexes db)[?k := None]\<rparr>)"
    by (simp add: thread_step_def SplitMutexDatabase_release [OF len])
  have c: "\<exists>th1 db1. thread_step SplitMutexDatabase_locking t (?th Ready) db = Some (th1, db1)
        \<and> mutexes db1 ! ?k = Some t
        \<and> ((thread_step SplitMutexDatabase_locking u
               \<lparr>pending = c' # cs', phase = Ready, thrown = x'\<rparr> db1 = None)
             = (?k = unat (call_index c') mod 5))"
    if idle: "list_all (\<lambda>m. m = None) (mutexes db)"
  proof -
    let ?k' = "unat (call_index c') mod 5"
    let ?db1 = "db\<lparr>mutexes := (mutexes db)[?k := Some t]\<rparr>"
    from idle len have free: "mutexes db ! ?k = None" "mutexes db ! ?k' = None"
      by (simp_all add: list_all_length)
    from a free have s: "thread_step SplitMutexDatabase_locking t (?th Ready) db
        = Some (?th Locked, ?db1)"
      by simp
    have len1: "length (mutexes ?db1) = 5"
      by (simp add: len)
    have own: "mutexes ?db1 ! ?k = Some t"
      by (simp add: len)
    have "(thread_step SplitMutexDatabase_locking u
             \<lparr>pending = c' # cs', phase = Ready, thrown = x'\<rparr> ?db1 = None)
        = (mutexes ?db1 ! ?k' \<noteq> None)"
      by (simp add: thread_step_def SplitMutexDatabase_acquire [OF len1])
    also have "\<dots> = (?k = ?k')"
      using free by (simp add: nth_list_update len)
    finally have e: "(thread_step SplitMutexDatabase_locking u
             \<lparr>pending = c' # cs', phase = Ready, thrown = x'\<rparr> ?db1 = None)
        = (?k = ?k')" .
    show ?thesis
    proof (intro exI conjI)
      show "thread_step SplitMutexDatabase_locking t (?th Ready) db = Some (?th Locked, ?db1)"
        by (rule s)
      show "mutexes ?db1 ! ?k = Some t"
        by (rule own)
      show "(thread_step SplitMutexDatabase_locking u
               \<lparr>pending = c' # cs', phase = Ready, thrown = x'\<rparr> ?db1 = None)
          = (?k = ?k')"
        by (rule e)
    qed
  qed
  from n a b1 b2 r c show ?thesis
    by blast
qed

theorem C8_sharded_locks_witness:
  "wf_SplitMutexDatabase SplitMutexDatabase_init
   \<and> length (mutexes SplitMutexDatabase_init) = 5
   \<and> thread_step SplitMutexDatabase_locking 0
        \<lparr>pending = [UpdateValue 7 25], phase = Ready, thrown = False\<rparr> SplitMutexDatabase_init
       = Some (\<lparr>pending = [UpdateValue 7 25], phase = Locked, thrown = False\<rparr>,
               SplitMutexDatabase_init\<lparr>mutexes := [None, None, Some 0, None, None]\<rparr>)
   \<and> thread_step SplitMutexDatabase_locking 0
        \<lparr>pending = [ReadValue 7], phase = Unlocking, thrown = False\<rparr>
        (SplitMutexDatabase_init\<lparr>mutexes := [None, None, Some 0, None, None]\<rparr>)
       = Some (\<lparr>pending = [], phase = Ready, thrown = False\<rparr>, SplitMutexDatabase_init)
   \<and> list_all (\<lambda>m. m = None) (mutexes SplitMutexDatabase_init)
   \<and> thread_step SplitMutexDatabase_locking 1
        \<lparr>pending = [ReadValue 2], phase = Ready, thrown = False\<rparr>
        (SplitMutexDatabase_init\<lparr>mutexes := [None, None, Some 0, None, None]\<rparr>) = None
   \<and> thread_step SplitMutexDatabase_locking 1
        \<lparr>pending = [ReadValue 3], phase = Ready, thrown = False\<rparr>
        (SplitMutexDatabase_init\<lparr>mutexes := [None, None, Some 0, None, None]\<rparr>) \<noteq> None"
proof -
  let ?held = "SplitMutexDatabase_init\<lparr>mutexes := [None, None, Some 0, None, None]\<rparr>"
  have idle: "list_all (\<lambda>m. m = None) (mutexes SplitMutexDatabase_init)"
    by (simp add: mutexes_init)
  have wf: "wf_SplitMutexDatabase ?held"
    by (simp add: wf_SplitMutexDatabase_def SplitMutexDatabase_init_def DATABASE_SIZE_def)
  have m: "unat (7 :: size_t) mod 5 = 2" "unat (2 :: size_t) mod 5 = 2"
    "unat (3 :: size_t) mod 5 = 3"
    by simp_all
  have upd: "(mutexes SplitMutexDatabase_init)[2 := Some 0] = [None, None, Some 0, None, None]"
    "[None, None, Some (0 :: nat), None, None][2 := None] = mutexes SplitMutexDatabase_init"
    by (simp_all add: mutexes_init)
  have restore: "(?held)\<lparr>mutexes := mutexes SplitMutexDatabase_init\<rparr> = SplitMutexDatabase_init"
    by simp
  note free = C8_sharded_locks [OF wf_SplitMutexDatabase_init,
      where t = 0 and c = "UpdateValue 7 25" and cs = "[]" and x = False]
  note held = C8_sharded_locks [OF wf, where x = False and cs = "[]"]
  show ?thesis
    using free held [where t = 0 and c = "ReadValue 7"]
      held [where t = 1 and c = "ReadValue 2"] held [where t = 1 and c = "ReadValue 3"]
      wf_SplitMutexDatabase_init idle
    by (simp add: m upd restore mutexes_init)
qed

section \<open>The seed a worker passes on\<close>

text \<open>
  C5. The claim: the seed a worker passes to the order generator is its own spawn index,
  the number of threads created before it. The lambda reads \<open>threads.size()\<close> when the
  worker reaches the call, not when the thread is created, and without synchronization
  with the main thread. In the run below the main thread has completed two \<open>emplace_back\<close>
  calls before worker 0 makes its first call: worker 0 passes the seed 2, and it cannot
  pass its spawn index 0 there.
\<close>

theorem C5_seed_not_spawn_index:
  "spawn_run [Start, Grow, Start, Grow, Seed 0 2] spawn_init
     = Some \<lparr>threads_size = 2, started = 2, seeds = [(0, 2)]\<rparr>
   \<and> spawn_run [Start, Grow, Start, Grow, Seed 0 0] spawn_init = None"
  by code_simp

section \<open>The report\<close>

text \<open>
  C6. The claim: four blocks, for the unlocked, single-mutex, shared-mutex and split-mutex
  table in this order, each with the line \<open>Elapsed Time:      <integer> ms\<close>. The code
  writes the unit directly after the number. For four fresh tables and 5 milliseconds each
  the program's output differs from the specified one, and its first block is the text
  below.
\<close>

theorem C6_report_counterexample:
  "main_output 5 Database_init 5 SingleMutexDatabase_init 5 SharedMutexDatabase_init
       5 SplitMutexDatabase_init
     \<noteq> spec_output 5 Database_init 5 SingleMutexDatabase_init 5 SharedMutexDatabase_init
       5 SplitMutexDatabase_init
   \<and> testDatabase_output Database_DATABASE_TYPE 5 Database_init
     = ''Results for non-threadsafe database:'' @ newline
       @ ''  Elapsed Time:      5ms'' @ newline
       @ ''  Database Contents: 0 0 0 0 0 0 0 0 0 0 '' @ newline
       @ ''  All Zero:          Pass'' @ newline"
  by code_simp

text \<open>
  C6, amended. The program writes exactly four blocks, for the unlocked, single-mutex,
  shared-mutex and split-mutex table in this order and under the labels below; the
  elapsed-time line of each block is \<open>Elapsed Time:      <integer>ms\<close>, the integer directly
  followed by \<open>ms\<close>.
\<close>

theorem C6_report_format:
  "main_output e1 db1 e2 db2 e3 db3 e4 db4 =
     ''Results for non-threadsafe database:'' @ newline
     @ ''  Elapsed Time:      '' @ show_int (sint e1) @ ''ms'' @ newline
     @ ''  Database Contents: '' @ print_Database db1 @ newline
     @ ''  All Zero:          '' @ (if fst (isAllZero db1) then ''Pass'' else ''FAILED!!!'')
     @ newline
     @ ''Results for single mutex database:'' @ newline
     @ ''  Elapsed Time:      '' @ show_int (sint e2) @ ''ms'' @ newline
     @ ''  Database Contents: '' @ print_Database db2 @ newline
     @ ''  All Zero:          '' @ (if fst (isAllZero db2) then ''Pass'' else ''FAILED!!!'')
     @ newline
     @ ''Results for shared mutex database:'' @ newline
     @ ''  Elapsed Time:      '' @ show_int (sint e3) @ ''ms'' @ newline
     @ ''  Database Contents: '' @ print_Database db3 @ newline
     @ ''  All Zero:          '' @ (if fst (isAllZero db3) then ''Pass'' else ''FAILED!!!'')
     @ newline
     @ ''Results for split mutex database:'' @ newline
     @ ''  Elapsed Time:      '' @ show_int (sint e4) @ ''ms'' @ newline
     @ ''  Database Contents: '' @ print_Database db4 @ newline
     @ ''  All Zero:          '' @ (if fst (isAllZero db4) then ''Pass'' else ''FAILED!!!'')
     @ newline"
  unfolding main_output_def testDatabase_output_def Database_DATABASE_TYPE_def
    SingleMutexDatabase_DATABASE_TYPE_def SharedMutexDatabase_DATABASE_TYPE_def
    SplitMutexDatabase_DATABASE_TYPE_def
  by simp

end
